theory Spec2Isabelle
  imports Main "HOL-Library.Word"
begin

unbundle bit_operations_syntax

section \<open>Bytes, C strings and the shard header (shard\_hdr.h)\<close>

text \<open>
  The program moves \<open>char\<close> buffers between files, so a byte is a \<open>char\<close> and a file is a
  list of them. A \<open>std::string\<close> is a \<open>string\<close>; what a C function sees of it
  (\<open>c_str()\<close>) ends at the first NUL.
\<close>

type_synonym byte = char

definition NUL :: char where
  "NUL = CHR 0x00"

definition c_str :: "string \<Rightarrow> string" where
  "c_str s = takeWhile (\<lambda>c. c \<noteq> NUL) s"

text \<open>\<open>strrchr(s, c)\<close>: the suffix of \<open>s\<close> that starts at the last \<open>c\<close>, if there is one.\<close>

definition strrchr :: "string \<Rightarrow> char \<Rightarrow> string option" where
  "strrchr s c =
     (if c \<in> set s then Some (c # rev (takeWhile (\<lambda>x. x \<noteq> c) (rev s))) else None)"

text \<open>\<open>strcpy\<close> into a buffer of \<open>n\<close> chars that \<open>memset\<close> has zeroed.\<close>

definition strcpy_zeroed :: "nat \<Rightarrow> string \<Rightarrow> string" where
  "strcpy_zeroed n s = s @ replicate (n - length s) NUL"

text \<open>\<open>strcmp(a, b) == 0\<close> on two char buffers.\<close>

definition strcmp_eq :: "string \<Rightarrow> string \<Rightarrow> bool" where
  "strcmp_eq a b = (c_str a = c_str b)"

text \<open>What \<open>operator<<\<close> prints for an unsigned integer.\<close>

fun show_nat :: "nat \<Rightarrow> string" where
  "show_nat n =
     (if n < 10 then [''0123456789'' ! n]
      else show_nat (n div 10) @ [''0123456789'' ! (n mod 10)])"

declare show_nat.simps [simp del]

record shard_hdr_t =
  magic :: "32 word"
  shard_idx :: "16 word"
  shard_count :: "16 word"
  original_size :: "64 word"
  original_crc :: "32 word"
  shard_size :: "64 word"
  shard_crc :: "32 word"
  original_name :: string

definition expected_magic :: "32 word" where
  "expected_magic = 0xB007C8AD"

definition name_capacity :: nat where
  "name_capacity = 256"

text \<open>\<open>memset(&shard_hdr, 0, sizeof(shard_hdr_t))\<close>.\<close>

definition zeroed_hdr :: shard_hdr_t where
  "zeroed_hdr = \<lparr> magic = 0, shard_idx = 0, shard_count = 0, original_size = 0,
     original_crc = 0, shard_size = 0, shard_crc = 0,
     original_name = replicate name_capacity NUL \<rparr>"

section \<open>What the sources leave open\<close>

text \<open>
  Two things the program uses are not fixed by the files at hand. The object representation
  of \<open>shard_hdr_t\<close> (its \<open>sizeof\<close> and the bytes that \<open>reinterpret_cast\<close> exposes) is the
  compiler's choice: the struct carries no packing directive. And \<open>update_crc\<close> is declared
  in crc.h while its body is not among the sources. Both are parameters of the model. The
  model takes \<open>size_t\<close> to be 64 bits wide.
\<close>

record platform =
  sizeof_shard_hdr :: "64 word"
  hdr_bytes :: "shard_hdr_t \<Rightarrow> byte list"
  bytes_hdr :: "byte list \<Rightarrow> shard_hdr_t"
  update_crc :: "32 word \<Rightarrow> byte list \<Rightarrow> 32 word"

text \<open>
  The laws a platform obeys: a header occupies \<open>sizeof\<close> bytes; reading back the bytes of a
  header whose name buffer has its 256 chars gives the same header; a span of no bytes
  leaves the checksum as it is; and the checksum of two consecutive spans is the checksum of
  their concatenation.
\<close>

definition platform_ok :: "platform \<Rightarrow> bool" where
  "platform_ok P \<longleftrightarrow>
     (\<forall>h. length (hdr_bytes P h) = unat (sizeof_shard_hdr P)) \<and>
     (\<forall>h. length (original_name h) = name_capacity \<longrightarrow> bytes_hdr P (hdr_bytes P h) = h) \<and>
     (\<forall>c. update_crc P c [] = c) \<and>
     (\<forall>c xs ys. update_crc P (update_crc P c xs) ys = update_crc P c (xs @ ys))"

section \<open>Files (file.h, file.cc)\<close>

text \<open>
  The file system is a store from paths to regular files; a journal records every creation
  and every \<open>write(2)\<close> in order. An open \<open>file_t\<close> stands for its descriptor's open file
  description: the file it names and the offset in it. In this model every file can be read
  and written, \<open>read(2)\<close> returns all it was asked for unless the file ends first, and
  \<open>write(2)\<close> takes all it is given.
\<close>

record inode =
  fdata :: "byte list"
  fmode :: nat

datatype event =
    Creat string nat
  | Write string nat "byte list"

record world =
  files :: "string \<rightharpoonup> inode"
  journal :: "event list"

record file_t =
  fd_path :: string
  fd_pos :: nat

datatype whence = SEEK_SET | SEEK_CUR | SEEK_END

text \<open>Every \<open>throw\<close> of the program, \<open>throw_with_nested\<close> keeping the cause.\<close>

datatype error =
    System_error
  | Unexpected_end_of_file
  | Could_not_open_for_reading string error
  | Could_not_open_for_writing string error
  | Division_by_zero
  | Big_file
  | File_name_too_long
  | File_too_small
  | Not_a_shard
  | Could_not_open_as_shard string error
  | No_shards
  | Count_mismatch nat nat
  | Doesnt_match string
  | Is_a_duplicate string
  | Is_damaged string
  | Did_not_reconstruct

definition open_ro :: "string \<Rightarrow> world \<Rightarrow> error + file_t" where
  "open_ro path w =
     (case files w (c_str path) of
        None \<Rightarrow> Inl (Could_not_open_for_reading path System_error)
      | Some _ \<Rightarrow> Inr \<lparr> fd_path = c_str path, fd_pos = 0 \<rparr>)"

text \<open>\<open>O_RDWR | O_CREAT | O_TRUNC\<close>: an existing file is emptied and keeps its mode.\<close>

definition open_rw :: "string \<Rightarrow> nat \<Rightarrow> world \<Rightarrow> (error + file_t) \<times> world" where
  "open_rw path mode w =
     (let p = c_str path;
          m = (case files w p of None \<Rightarrow> mode | Some x \<Rightarrow> fmode x)
      in (Inr \<lparr> fd_path = p, fd_pos = 0 \<rparr>,
          w\<lparr> files := (files w)(p \<mapsto> \<lparr> fdata = [], fmode = m \<rparr>),
             journal := journal w @ [Creat p mode] \<rparr>))"

definition get_size_and_mode :: "file_t \<Rightarrow> world \<Rightarrow> error + (64 word \<times> nat)" where
  "get_size_and_mode f w =
     (case files w (fd_path f) of
        None \<Rightarrow> Inl System_error
      | Some x \<Rightarrow> Inr (of_nat (length (fdata x)), fmode x))"

definition read_at_most :: "file_t \<Rightarrow> nat \<Rightarrow> world \<Rightarrow> error + (byte list \<times> file_t)" where
  "read_at_most f max_size w =
     (case files w (fd_path f) of
        None \<Rightarrow> Inl System_error
      | Some x \<Rightarrow>
          (let buffer = take max_size (drop (fd_pos f) (fdata x))
           in Inr (buffer, f\<lparr> fd_pos := fd_pos f + length buffer \<rparr>)))"

text \<open>
  \<open>read_exactly\<close> loops on \<open>read(2)\<close> until it has \<open>n\<close> bytes; a read of nothing is the
  end of the file.
\<close>

function read_exactly :: "file_t \<Rightarrow> nat \<Rightarrow> world \<Rightarrow> error + (byte list \<times> file_t)" where
  "read_exactly f n w =
     (if n = 0 then Inr ([], f)
      else case read_at_most f n w of
          Inl e \<Rightarrow> Inl e
        | Inr (got, f') \<Rightarrow>
            if length got = 0 then Inl Unexpected_end_of_file
            else (case read_exactly f' (n - length got) w of
                Inl e \<Rightarrow> Inl e
              | Inr (rest, f'') \<Rightarrow> Inr (got @ rest, f'')))"
  by pat_completeness auto
termination
  by (relation "measure (\<lambda>(f, n, w). n)")
     (auto simp: read_at_most_def Let_def split: option.splits)

declare read_exactly.simps [simp del]

definition seek :: "file_t \<Rightarrow> int \<Rightarrow> whence \<Rightarrow> world \<Rightarrow> error + (64 word \<times> file_t)" where
  "seek f offset wh w =
     (case files w (fd_path f) of
        None \<Rightarrow> Inl System_error
      | Some x \<Rightarrow>
          (let base = (case wh of SEEK_SET \<Rightarrow> 0 | SEEK_CUR \<Rightarrow> int (fd_pos f)
                       | SEEK_END \<Rightarrow> int (length (fdata x)));
               result = base + offset
           in if result < 0 then Inl System_error
              else Inr (of_int result, f\<lparr> fd_pos := nat result \<rparr>)))"

text \<open>One \<open>write(2)\<close> at the descriptor's offset; a gap past the end reads as zeros.\<close>

definition sys_write :: "file_t \<Rightarrow> byte list \<Rightarrow> world \<Rightarrow> (error + (nat \<times> file_t)) \<times> world" where
  "sys_write f buffer w =
     (case files w (fd_path f) of
        None \<Rightarrow> (Inl System_error, w)
      | Some x \<Rightarrow>
          (let pos = fd_pos f;
               old = fdata x;
               new = take pos old @ replicate (pos - length old) NUL @ buffer
                     @ drop (pos + length buffer) old
           in (Inr (length buffer, f\<lparr> fd_pos := pos + length buffer \<rparr>),
               w\<lparr> files := (files w)(fd_path f \<mapsto> x\<lparr> fdata := new \<rparr>),
                  journal := journal w @ [Write (fd_path f) pos buffer] \<rparr>)))"

function write_exactly :: "file_t \<Rightarrow> byte list \<Rightarrow> world \<Rightarrow> (error + file_t) \<times> world" where
  "write_exactly f buffer w =
     (if length buffer = 0 then (Inr f, w)
      else case sys_write f buffer w of
          (Inl e, w') \<Rightarrow> (Inl e, w')
        | (Inr (write_size, f'), w') \<Rightarrow> write_exactly f' (drop write_size buffer) w')"
  by pat_completeness auto
termination
  by (relation "measure (\<lambda>(f, buffer, w). length buffer)")
     (auto simp: sys_write_def Let_def split: option.splits)

declare write_exactly.simps [simp del]

section \<open>Splitting (split.cc)\<close>

definition make_shard_name :: "string \<Rightarrow> nat \<Rightarrow> nat \<Rightarrow> string" where
  "make_shard_name path idx count = path @ ''@'' @ show_nat idx @ ''.'' @ show_nat count"

text \<open>The first pass over the input: its CRC, one 64K buffer at a time, until a read of nothing.\<close>

function crc_pass :: "platform \<Rightarrow> file_t \<Rightarrow> 32 word \<Rightarrow> world \<Rightarrow> error + (32 word \<times> file_t)" where
  "crc_pass P inp crc w =
     (case read_at_most inp 0x10000 w of
        Inl e \<Rightarrow> Inl e
      | Inr (buffer, inp') \<Rightarrow>
          if length buffer = 0 then Inr (crc, inp')
          else crc_pass P inp' (update_crc P crc buffer) w)"
  by pat_completeness auto
termination
  by (relation "measure (\<lambda>(P, inp, crc, w).
        case files w (fd_path inp) of None \<Rightarrow> 0 | Some x \<Rightarrow> length (fdata x) - fd_pos inp)")
     (auto simp: read_at_most_def Let_def split: option.splits)

declare crc_pass.simps [simp del]

text \<open>
  The inner \<open>while (shard_size)\<close> loop. It ends only when the count reaches zero: a read
  of nothing leaves the count as it is, so the loop may run forever, and the model returns
  \<open>None\<close> then.
\<close>

partial_function (option) copy_shard ::
  "platform \<Rightarrow> file_t \<Rightarrow> file_t \<Rightarrow> 64 word \<Rightarrow> 32 word \<Rightarrow> world
     \<Rightarrow> ((error + (32 word \<times> file_t \<times> file_t)) \<times> world) option" where
  "copy_shard P inp out sz crc w =
     (if sz = 0 then Some (Inr (crc, inp, out), w)
      else case read_at_most inp (min 0x10000 (unat sz)) w of
          Inl e \<Rightarrow> Some (Inl e, w)
        | Inr (buffer, inp') \<Rightarrow>
            (case write_exactly out buffer w of
               (Inl e, w') \<Rightarrow> Some (Inl e, w')
             | (Inr out', w') \<Rightarrow>
                 copy_shard P inp' out' (sz - of_nat (length buffer))
                   (update_crc P crc buffer) w'))"

declare copy_shard.simps [code]

text \<open>
  The \<open>for (uint16_t shard_idx = 1; shard_idx <= shard_count; ++shard_idx)\<close> loop. The header
  \<open>hdr\<close> lives outside the loop, so the \<open>shard_crc\<close> it holds when a shard's first header
  is written is the one the shard before left there. The counter is 16 bits wide and wraps.
\<close>

partial_function (option) split_loop ::
  "platform \<Rightarrow> string \<Rightarrow> 64 word \<Rightarrow> nat \<Rightarrow> 16 word \<Rightarrow> 16 word \<Rightarrow> file_t \<Rightarrow> 64 word
     \<Rightarrow> shard_hdr_t \<Rightarrow> world \<Rightarrow> ((error + unit) \<times> world) option" where
  "split_loop P file_name max_shard_size mode count idx inp in_size hdr w =
     (if idx \<le> count then
        (case open_rw (make_shard_name file_name (unat idx) (unat count)) mode w of
           (Inl e, w1) \<Rightarrow> Some (Inl e, w1)
         | (Inr out, w1) \<Rightarrow>
             (let sz = min (max_shard_size - sizeof_shard_hdr P) in_size;
                  hdr1 = hdr\<lparr> shard_idx := idx, shard_size := sz + sizeof_shard_hdr P \<rparr>
              in case write_exactly out (hdr_bytes P hdr1) w1 of
                  (Inl e, w2) \<Rightarrow> Some (Inl e, w2)
                | (Inr out2, w2) \<Rightarrow>
                    Option.bind (copy_shard P inp out2 sz 0 w2) (\<lambda>r.
                      case r of
                        (Inl e, w3) \<Rightarrow> Some (Inl e, w3)
                      | (Inr (crc, inp3, out3), w3) \<Rightarrow>
                          (let hdr2 = hdr1\<lparr> shard_crc := crc \<rparr>
                           in case seek out3 0 SEEK_SET w3 of
                               Inl e \<Rightarrow> Some (Inl e, w3)
                             | Inr (_, out4) \<Rightarrow>
                                 (case write_exactly out4 (hdr_bytes P hdr2) w3 of
                                    (Inl e, w4) \<Rightarrow> Some (Inl e, w4)
                                  | (Inr _, w4) \<Rightarrow>
                                      split_loop P file_name max_shard_size mode count
                                        (idx + 1) inp3 (in_size - sz) hdr2 w4)))))
      else Some (Inr (), w))"

declare split_loop.simps [code]

text \<open>
  The name that goes into the header: \<open>file_name.c_str()\<close>, from just after its last
  slash when it has one.
\<close>

definition base_name :: "string \<Rightarrow> string" where
  "base_name file_name =
     (case strrchr (c_str file_name) CHR ''/'' of
        Some slash \<Rightarrow> tl slash
      | None \<Rightarrow> c_str file_name)"

text \<open>
  \<open>split\<close>. Dividing by a zero \<open>max_shard_size\<close> has no defined result in C++; the model
  makes it an error of its own.
\<close>

definition split :: "platform \<Rightarrow> string \<Rightarrow> 64 word \<Rightarrow> world \<Rightarrow> ((error + unit) \<times> world) option" where
  "split P file_name max_shard_size w =
     (case open_ro file_name w of
        Inl e \<Rightarrow> Some (Inl e, w)
      | Inr inp0 \<Rightarrow>
     (case get_size_and_mode inp0 w of
        Inl e \<Rightarrow> Some (Inl e, w)
      | Inr (in_size, mode) \<Rightarrow>
     (case crc_pass P inp0 0 w of
        Inl e \<Rightarrow> Some (Inl e, w)
      | Inr (crc, inp1) \<Rightarrow>
     (case seek inp1 0 SEEK_SET w of
        Inl e \<Rightarrow> Some (Inl e, w)
      | Inr (_, inp) \<Rightarrow>
          if max_shard_size = 0 then Some (Inl Division_by_zero, w)
          else
            (let big_shard_count = (in_size + max_shard_size - 1) div max_shard_size
             in if big_shard_count > 65535 then Some (Inl Big_file, w)
                else
                  (let count = (ucast big_shard_count :: 16 word);
                       hdr = zeroed_hdr\<lparr> magic := expected_magic, shard_count := count,
                               original_size := in_size, original_crc := crc \<rparr>;
                       name = base_name file_name
                   in if length name \<ge> name_capacity then Some (Inl File_name_too_long, w)
                      else split_loop P file_name max_shard_size mode count 1 inp in_size
                             (hdr\<lparr> original_name := strcpy_zeroed name_capacity name \<rparr>) w))))))"

section \<open>Joining (join.cc)\<close>

definition open_shard :: "platform \<Rightarrow> string \<Rightarrow> world \<Rightarrow> error + (shard_hdr_t \<times> file_t)" where
  "open_shard P path w =
     (case
        (case open_ro path w of
           Inl e \<Rightarrow> Inl e
         | Inr inp \<Rightarrow>
        (case get_size_and_mode inp w of
           Inl e \<Rightarrow> Inl e
         | Inr (in_size, mode) \<Rightarrow>
             if in_size < sizeof_shard_hdr P then Inl File_too_small
             else
               (case read_exactly inp (unat (sizeof_shard_hdr P)) w of
                  Inl e \<Rightarrow> Inl e
                | Inr (raw, inp') \<Rightarrow>
                    (let hdr = bytes_hdr P raw
                     in if magic hdr \<noteq> expected_magic \<or> shard_size hdr \<noteq> in_size
                        then Inl Not_a_shard
                        else Inr (hdr, inp')))))
      of
        Inl e \<Rightarrow> Inl (Could_not_open_as_shard path e)
      | Inr r \<Rightarrow> Inr r)"

text \<open>
  \<open>std::map<uint16_t, std::string>\<close>: the entries in ascending key order, which is the
  order its iteration visits them. \<open>emplace\<close> leaves the map alone when the key is there
  and says whether it inserted.
\<close>

type_synonym shard_map = "(16 word \<times> string) list"

fun map_emplace :: "16 word \<Rightarrow> string \<Rightarrow> shard_map \<Rightarrow> shard_map \<times> bool" where
  "map_emplace k v [] = ([(k, v)], True)"
| "map_emplace k v ((k', v') # m) =
     (if k < k' then ((k, v) # (k', v') # m, True)
      else if k = k' then ((k', v') # m, False)
      else (case map_emplace k v m of (m', inserted) \<Rightarrow> ((k', v') # m', inserted)))"

text \<open>The loop over \<open>file_names[1..]\<close>: each file is checked against the first and filed by index.\<close>

fun join_scan ::
  "platform \<Rightarrow> shard_hdr_t \<Rightarrow> string list \<Rightarrow> shard_map \<Rightarrow> world \<Rightarrow> error + shard_map" where
  "join_scan P master_shard_hdr [] m w = Inr m"
| "join_scan P master_shard_hdr (name # names) m w =
     (case open_shard P name w of
        Inl e \<Rightarrow> Inl e
      | Inr (hdr, inp) \<Rightarrow>
          if shard_count hdr \<noteq> shard_count master_shard_hdr \<or>
             original_size hdr \<noteq> original_size master_shard_hdr \<or>
             original_crc hdr \<noteq> original_crc master_shard_hdr \<or>
             \<not> strcmp_eq (original_name hdr) (original_name master_shard_hdr)
          then Inl (Doesnt_match name)
          else
            (case map_emplace (shard_idx hdr) name m of
               (m', inserted) \<Rightarrow>
                 if \<not> inserted then Inl (Is_a_duplicate name)
                 else join_scan P master_shard_hdr names m' w))"

text \<open>
  The inner \<open>for (;;)\<close> loop: what is left of the shard goes to the output, both CRCs
  following. It ends at a read of nothing, which a shard that is also the output need not
  reach; the model returns \<open>None\<close> then.
\<close>

partial_function (option) append_shard ::
  "platform \<Rightarrow> file_t \<Rightarrow> file_t \<Rightarrow> 32 word \<Rightarrow> 32 word \<Rightarrow> world
     \<Rightarrow> ((error + (32 word \<times> 32 word \<times> file_t)) \<times> world) option" where
  "append_shard P inp out total_crc crc w =
     (case read_at_most inp 0x10000 w of
        Inl e \<Rightarrow> Some (Inl e, w)
      | Inr (buffer, inp') \<Rightarrow>
          if length buffer = 0 then Some (Inr (total_crc, crc, out), w)
          else
            (case write_exactly out buffer w of
               (Inl e, w') \<Rightarrow> Some (Inl e, w')
             | (Inr out', w') \<Rightarrow>
                 append_shard P inp' out' (update_crc P total_crc buffer)
                   (update_crc P crc buffer) w'))"

declare append_shard.simps [code]

text \<open>The loop over the map, in key order.\<close>

fun join_emit ::
  "platform \<Rightarrow> shard_map \<Rightarrow> file_t \<Rightarrow> 32 word \<Rightarrow> world
     \<Rightarrow> ((error + (32 word \<times> file_t)) \<times> world) option" where
  "join_emit P [] out total_crc w = Some (Inr (total_crc, out), w)"
| "join_emit P ((idx, path) # m) out total_crc w =
     (case open_shard P path w of
        Inl e \<Rightarrow> Some (Inl e, w)
      | Inr (hdr, inp) \<Rightarrow>
          Option.bind (append_shard P inp out total_crc 0 w) (\<lambda>r.
            case r of
              (Inl e, w') \<Rightarrow> Some (Inl e, w')
            | (Inr (total_crc', crc, out'), w') \<Rightarrow>
                if shard_crc hdr \<noteq> crc then Some (Inl (Is_damaged path), w')
                else join_emit P m out' total_crc' w'))"

definition join :: "platform \<Rightarrow> string list \<Rightarrow> world \<Rightarrow> ((error + unit) \<times> world) option" where
  "join P file_names w =
     (case file_names of
        [] \<Rightarrow> Some (Inl No_shards, w)
      | first # others \<Rightarrow>
     (case open_shard P first w of
        Inl e \<Rightarrow> Some (Inl e, w)
      | Inr (master_shard_hdr, inp) \<Rightarrow>
          if length file_names \<noteq> unat (shard_count master_shard_hdr)
          then Some (Inl (Count_mismatch (length file_names)
                       (unat (shard_count master_shard_hdr))), w)
          else
            (case join_scan P master_shard_hdr others
                    [(shard_idx master_shard_hdr, first)] w of
               Inl e \<Rightarrow> Some (Inl e, w)
             | Inr m \<Rightarrow>
            (case open_rw (original_name master_shard_hdr) 511 w of
               (Inl e, w1) \<Rightarrow> Some (Inl e, w1)
             | (Inr out, w1) \<Rightarrow>
                 Option.bind (join_emit P m out 0 w1) (\<lambda>r.
                   case r of
                     (Inl e, w2) \<Rightarrow> Some (Inl e, w2)
                   | (Inr (total_crc, out'), w2) \<Rightarrow>
                       (case seek out' 0 SEEK_CUR w2 of
                          Inl e \<Rightarrow> Some (Inl e, w2)
                        | Inr (out_size, _) \<Rightarrow>
                            if out_size \<noteq> original_size master_shard_hdr \<or>
                               total_crc \<noteq> original_crc master_shard_hdr
                            then Some (Inl Did_not_reconstruct, w2)
                            else Some (Inr (), w2)))))))"

section \<open>A reference platform\<close>

text \<open>
  Modelled from the spec: the object representation of \<open>shard_hdr_t\<close>, which the sources
  leave to the compiler, as section 6 of the specification words it. The header is 288
  bytes, its fields in declaration order in a fixed byte order (here the least significant
  byte first) with no padding, the name in its 256 chars.
\<close>

fun le_bytes :: "nat \<Rightarrow> nat \<Rightarrow> byte list" where
  "le_bytes 0 x = []"
| "le_bytes (Suc n) x = char_of (x mod 256) # le_bytes n (x div 256)"

fun le_nat :: "byte list \<Rightarrow> nat" where
  "le_nat [] = 0"
| "le_nat (b # bs) = of_char b + 256 * le_nat bs"

definition packed_hdr_bytes :: "shard_hdr_t \<Rightarrow> byte list" where
  "packed_hdr_bytes h =
     le_bytes 4 (unat (magic h)) @ le_bytes 2 (unat (shard_idx h)) @
     le_bytes 2 (unat (shard_count h)) @ le_bytes 8 (unat (original_size h)) @
     le_bytes 4 (unat (original_crc h)) @ le_bytes 8 (unat (shard_size h)) @
     le_bytes 4 (unat (shard_crc h)) @
     take name_capacity (original_name h @ replicate name_capacity NUL)"

definition packed_bytes_hdr :: "byte list \<Rightarrow> shard_hdr_t" where
  "packed_bytes_hdr bs =
     \<lparr> magic = of_nat (le_nat (take 4 bs)),
       shard_idx = of_nat (le_nat (take 2 (drop 4 bs))),
       shard_count = of_nat (le_nat (take 2 (drop 6 bs))),
       original_size = of_nat (le_nat (take 8 (drop 8 bs))),
       original_crc = of_nat (le_nat (take 4 (drop 16 bs))),
       shard_size = of_nat (le_nat (take 8 (drop 20 bs))),
       shard_crc = of_nat (le_nat (take 4 (drop 28 bs))),
       original_name = take name_capacity (drop 32 bs) \<rparr>"

text \<open>
  Modelled from the spec: \<open>update_crc\<close>, declared in crc.h, whose body (crc.cc) is not among
  the sources. Section 6 of the specification calls it an incremental CRC-32 accumulator;
  here it is the reflected CRC-32 with polynomial \<open>0xEDB88320\<close>, complemented on the way
  in and out so that spans chain.
\<close>

definition crc32_bit :: "32 word \<Rightarrow> 32 word" where
  "crc32_bit c = (if bit c 0 then drop_bit 1 c XOR 0xEDB88320 else drop_bit 1 c)"

definition crc32_byte :: "32 word \<Rightarrow> byte \<Rightarrow> 32 word" where
  "crc32_byte c b = (crc32_bit ^^ 8) (c XOR of_char b)"

definition crc32_update :: "32 word \<Rightarrow> byte list \<Rightarrow> 32 word" where
  "crc32_update crc buffer = NOT (foldl crc32_byte (NOT crc) buffer)"

definition wire_platform :: platform where
  "wire_platform =
     \<lparr> sizeof_shard_hdr = 288, hdr_bytes = packed_hdr_bytes, bytes_hdr = packed_bytes_hdr,
       update_crc = crc32_update \<rparr>"

section \<open>Notions the statements use\<close>

text \<open>
  The \<open>write(2)\<close> calls that carry a payload to a file from offset \<open>pos\<close> on, one 64K
  buffer at a time.
\<close>

fun write_events :: "string \<Rightarrow> nat \<Rightarrow> byte list \<Rightarrow> event list" where
  "write_events path pos xs =
     (if xs = [] then []
      else Write path pos (take 65536 xs) # write_events path (pos + 65536) (drop 65536 xs))"

declare write_events.simps [simp del]

text \<open>
  A file that \<open>open_shard\<close> accepts: the bytes of a header \<open>h\<close> with the magic number, then
  a payload, the header's \<open>shard_size\<close> being the size of the whole file.
\<close>

definition shard_file :: "platform \<Rightarrow> world \<Rightarrow> string \<Rightarrow> shard_hdr_t \<Rightarrow> byte list \<Rightarrow> bool" where
  "shard_file P w path h payload \<longleftrightarrow>
     map_option fdata (files w (c_str path)) = Some (hdr_bytes P h @ payload) \<and>
     length (original_name h) = name_capacity \<and>
     magic h = expected_magic \<and>
     unat (shard_size h) = length (hdr_bytes P h @ payload)"

text \<open>
  What \<open>split\<close> leaves behind, in closed form. With \<open>c\<close> payload bytes to a shard, shard
  \<open>i\<close> (counted from 1) carries the \<open>i\<close>-th run of \<open>c\<close> bytes of the input, as far as the
  input goes. \<open>c\<close> is \<open>max_shard_size - sizeof(shard_hdr_t)\<close> in \<open>size_t\<close> arithmetic.
\<close>

definition shard_capacity :: "platform \<Rightarrow> 64 word \<Rightarrow> nat" where
  "shard_capacity P max_shard_size = unat (max_shard_size - sizeof_shard_hdr P)"

definition shard_payload :: "nat \<Rightarrow> byte list \<Rightarrow> nat \<Rightarrow> byte list" where
  "shard_payload c data i = take c (drop ((i - 1) * c) data)"

text \<open>
  The header a shard ends up with, and the header its first write carries: the same but
  for \<open>shard_crc\<close>, which then still holds what the loop's header variable held.
\<close>

definition final_hdr :: "platform \<Rightarrow> shard_hdr_t \<Rightarrow> nat \<Rightarrow> byte list \<Rightarrow> nat \<Rightarrow> shard_hdr_t" where
  "final_hdr P base c data i =
     base\<lparr> shard_idx := of_nat i,
           shard_size := of_nat (length (shard_payload c data i)) + sizeof_shard_hdr P,
           shard_crc := update_crc P 0 (shard_payload c data i) \<rparr>"

definition first_hdr :: "platform \<Rightarrow> shard_hdr_t \<Rightarrow> nat \<Rightarrow> byte list \<Rightarrow> nat \<Rightarrow> shard_hdr_t" where
  "first_hdr P base c data i =
     (final_hdr P base c data i)
       \<lparr> shard_crc := (if i = 1 then shard_crc base
                       else update_crc P 0 (shard_payload c data (i - 1))) \<rparr>"

definition shard_path :: "string \<Rightarrow> nat \<Rightarrow> nat \<Rightarrow> string" where
  "shard_path file_name count i = c_str (make_shard_name file_name i count)"

definition shard_events ::
  "platform \<Rightarrow> string \<Rightarrow> nat \<Rightarrow> nat \<Rightarrow> shard_hdr_t \<Rightarrow> nat \<Rightarrow> byte list \<Rightarrow> nat \<Rightarrow> event list" where
  "shard_events P file_name mode count base c data i =
     [Creat (shard_path file_name count i) mode,
      Write (shard_path file_name count i) 0 (hdr_bytes P (first_hdr P base c data i))] @
     write_events (shard_path file_name count i) (unat (sizeof_shard_hdr P))
       (shard_payload c data i) @
     [Write (shard_path file_name count i) 0 (hdr_bytes P (final_hdr P base c data i))]"

definition emit_shard ::
  "platform \<Rightarrow> string \<Rightarrow> nat \<Rightarrow> nat \<Rightarrow> shard_hdr_t \<Rightarrow> nat \<Rightarrow> byte list \<Rightarrow> nat \<Rightarrow> world \<Rightarrow> world" where
  "emit_shard P file_name mode count base c data i w =
     w\<lparr> files := (files w)(shard_path file_name count i \<mapsto>
            \<lparr> fdata = hdr_bytes P (final_hdr P base c data i) @ shard_payload c data i,
              fmode = (case files w (shard_path file_name count i) of
                         None \<Rightarrow> mode | Some x \<Rightarrow> fmode x) \<rparr>),
        journal := journal w @ shard_events P file_name mode count base c data i \<rparr>"

definition emit_shards ::
  "platform \<Rightarrow> string \<Rightarrow> nat \<Rightarrow> nat \<Rightarrow> shard_hdr_t \<Rightarrow> nat \<Rightarrow> byte list \<Rightarrow> nat list \<Rightarrow> world \<Rightarrow> world" where
  "emit_shards P file_name mode count base c data js w =
     foldl (\<lambda>w' i. emit_shard P file_name mode count base c data i w') w js"

text \<open>The shard count \<open>split\<close> computes, and the header fields all its shards share.\<close>

definition split_count :: "64 word \<Rightarrow> byte list \<Rightarrow> 64 word" where
  "split_count max_shard_size data = (of_nat (length data) + max_shard_size - 1) div max_shard_size"

definition split_hdr :: "platform \<Rightarrow> string \<Rightarrow> 64 word \<Rightarrow> byte list \<Rightarrow> shard_hdr_t" where
  "split_hdr P file_name max_shard_size data =
     zeroed_hdr\<lparr> magic := expected_magic,
                 shard_count := ucast (split_count max_shard_size data),
                 original_size := of_nat (length data),
                 original_crc := update_crc P 0 data,
                 original_name := strcpy_zeroed name_capacity (base_name file_name) \<rparr>"

section \<open>Observations and sample inputs\<close>

text \<open>What a run of \<open>split\<close> or \<open>join\<close> returned, and the world it left.\<close>

definition split_status :: "platform \<Rightarrow> string \<Rightarrow> 64 word \<Rightarrow> world \<Rightarrow> (error + unit) option" where
  "split_status P file_name max_shard_size w = map_option fst (split P file_name max_shard_size w)"

definition after_split :: "platform \<Rightarrow> string \<Rightarrow> 64 word \<Rightarrow> world \<Rightarrow> world" where
  "after_split P file_name max_shard_size w =
     (case split P file_name max_shard_size w of Some r \<Rightarrow> snd r | None \<Rightarrow> w)"

definition join_status :: "platform \<Rightarrow> string list \<Rightarrow> world \<Rightarrow> (error + unit) option" where
  "join_status P file_names w = map_option fst (join P file_names w)"

definition after_join :: "platform \<Rightarrow> string list \<Rightarrow> world \<Rightarrow> world" where
  "after_join P file_names w =
     (case join P file_names w of Some r \<Rightarrow> snd r | None \<Rightarrow> w)"

text \<open>The files a journal shows being created, in order.\<close>

fun created :: "event list \<Rightarrow> string list" where
  "created [] = []"
| "created (Creat p m # es) = p # created es"
| "created (Write p pos bs # es) = created es"

text \<open>The buffers a journal shows being written to \<open>path\<close> at offset \<open>pos\<close>, in order.\<close>

fun writes_at :: "string \<Rightarrow> nat \<Rightarrow> event list \<Rightarrow> byte list list" where
  "writes_at path pos [] = []"
| "writes_at path pos (Creat p m # es) = writes_at path pos es"
| "writes_at path pos (Write p q bs # es) =
     (if p = path \<and> q = pos then bs # writes_at path pos es else writes_at path pos es)"

text \<open>The bytes of a file, and those past its header.\<close>

definition contents :: "world \<Rightarrow> string \<Rightarrow> byte list option" where
  "contents w path = map_option fdata (files w path)"

definition payload_of :: "platform \<Rightarrow> world \<Rightarrow> string \<Rightarrow> byte list option" where
  "payload_of P w path = map_option (drop (unat (sizeof_shard_hdr P))) (contents w path)"

text \<open>A world that holds the given files, each with mode 0644, and an empty journal.\<close>

fun files_of :: "(string \<times> byte list) list \<Rightarrow> (string \<rightharpoonup> inode)" where
  "files_of [] = Map.empty"
| "files_of ((p, d) # fs) = (files_of fs)(p \<mapsto> \<lparr> fdata = d, fmode = 420 \<rparr>)"

definition world_of :: "(string \<times> byte list) list \<Rightarrow> world" where
  "world_of fs = \<lparr> files = files_of fs, journal = [] \<rparr>"

text \<open>A lone first shard of a set of three, for the reference platform.\<close>

definition lone_hdr :: shard_hdr_t where
  "lone_hdr = zeroed_hdr\<lparr> magic := expected_magic, shard_idx := 1, shard_count := 3,
       original_size := 9, shard_size := 291,
       original_name := strcpy_zeroed name_capacity ''abc'' \<rparr>"

definition lone_world :: world where
  "lone_world = world_of [(''abc@1.3'', hdr_bytes wire_platform lone_hdr @ ''xyz'')]"

text \<open>An empty source file.\<close>

definition empty_world :: world where
  "empty_world = world_of [(''empty.bin'', [])]"

text \<open>
  One-byte sources whose base names have 255 chars: one in the working directory, one in a
  directory \<open>d\<close>.
\<close>

definition name255 :: string where
  "name255 = replicate 255 CHR ''a''"

definition world255 :: world where
  "world255 = world_of [(name255, ''x'')]"

definition dir255 :: string where
  "dir255 = ''d/'' @ name255"

definition dir255_world :: world where
  "dir255_world = world_of [(dir255, ''x'')]"

text \<open>Small sources named \<open>f\<close>: two bytes, and 290 equal bytes.\<close>

definition ab_world :: world where
  "ab_world = world_of [(''f'', ''AB'')]"

definition x290 :: "byte list" where
  "x290 = replicate 290 CHR ''x''"

definition x290_world :: world where
  "x290_world = world_of [(''f'', x290)]"

text \<open>Larger sources named \<open>f\<close>, all of one byte value: 1100, 65536 and 65536 * 289 bytes.\<close>

definition x1100_world :: world where
  "x1100_world = world_of [(''f'', replicate 1100 CHR ''x'')]"

definition x65536_world :: world where
  "x65536_world = world_of [(''f'', replicate 65536 CHR ''x'')]"

definition big_world :: world where
  "big_world = world_of [(''f'', replicate 18939904 CHR ''x'')]"

text \<open>A source of 290 bytes that starts with \<open>AB\<close>.\<close>

definition ab290 :: "byte list" where
  "ab290 = ''AB'' @ replicate 288 CHR ''x''"

definition ab290_world :: world where
  "ab290_world = world_of [(''f'', ab290)]"

text \<open>The size of a file, 0 when there is none.\<close>

definition file_size :: "world \<Rightarrow> string \<Rightarrow> nat" where
  "file_size w path = (case contents w path of None \<Rightarrow> 0 | Some d \<Rightarrow> length d)"

section \<open>Shard sets\<close>

text \<open>
  A shard as \<open>join\<close> meets it: the path it is given, and the header and the payload the
  file at that path holds.
\<close>

type_synonym shard = "string \<times> shard_hdr_t \<times> byte list"

definition sh_path :: "shard \<Rightarrow> string" where
  "sh_path s = fst s"

definition sh_hdr :: "shard \<Rightarrow> shard_hdr_t" where
  "sh_hdr s = fst (snd s)"

definition sh_payload :: "shard \<Rightarrow> byte list" where
  "sh_payload s = snd (snd s)"

definition sh_idx :: "shard \<Rightarrow> 16 word" where
  "sh_idx s = shard_idx (sh_hdr s)"

text \<open>Two headers of one set: the four fields \<open>join\<close> compares agree.\<close>

definition consistent :: "shard_hdr_t \<Rightarrow> shard_hdr_t \<Rightarrow> bool" where
  "consistent h h' \<longleftrightarrow>
     shard_count h = shard_count h' \<and> original_size h = original_size h' \<and>
     original_crc h = original_crc h' \<and> strcmp_eq (original_name h) (original_name h')"

text \<open>
  The shards are on disk and belong together: each path holds its header and payload as a
  shard file, the headers agree pairwise, there are as many shards as the headers' count
  says, no index occurs twice, and the file the headers name is none of the shard files.
\<close>

definition shards_on_disk :: "platform \<Rightarrow> world \<Rightarrow> shard list \<Rightarrow> bool" where
  "shards_on_disk P w ss \<longleftrightarrow>
     ss \<noteq> [] \<and>
     (\<forall>s \<in> set ss. shard_file P w (sh_path s) (sh_hdr s) (sh_payload s)) \<and>
     (\<forall>s \<in> set ss. \<forall>t \<in> set ss. consistent (sh_hdr s) (sh_hdr t)) \<and>
     (\<forall>s \<in> set ss. unat (shard_count (sh_hdr s)) = length ss) \<and>
     distinct (map sh_idx ss) \<and>
     (\<forall>s \<in> set ss. \<forall>t \<in> set ss. c_str (original_name (sh_hdr s)) \<noteq> c_str (sh_path t))"

text \<open>The shards by ascending index, and the bytes they carry in that order.\<close>

definition in_index_order :: "shard list \<Rightarrow> shard list" where
  "in_index_order ss = sort_key sh_idx ss"

definition joined_payload :: "shard list \<Rightarrow> byte list" where
  "joined_payload ss = concat (map sh_payload (in_index_order ss))"

text \<open>A shard whose stored CRC is that of its payload.\<close>

definition intact :: "platform \<Rightarrow> shard \<Rightarrow> bool" where
  "intact P s \<longleftrightarrow> shard_crc (sh_hdr s) = update_crc P 0 (sh_payload s)"

text \<open>
  A valid shard set: on disk, every shard intact, and the size and CRC the headers give for
  the original are those of the payloads taken in index order.
\<close>

definition valid_shard_set :: "platform \<Rightarrow> world \<Rightarrow> shard list \<Rightarrow> bool" where
  "valid_shard_set P w ss \<longleftrightarrow>
     shards_on_disk P w ss \<and>
     (\<forall>s \<in> set ss. intact P s) \<and>
     (\<forall>s \<in> set ss. unat (original_size (sh_hdr s)) = length (joined_payload ss) \<and>
                     original_crc (sh_hdr s) = update_crc P 0 (joined_payload ss))"

text \<open>The path of the file \<open>join\<close> writes for a shard set.\<close>

definition dest_path :: "shard list \<Rightarrow> string" where
  "dest_path ss = c_str (original_name (sh_hdr (hd ss)))"

text \<open>What appending a payload to the file at \<open>dest\<close> does to the world.\<close>

definition append_payload :: "string \<Rightarrow> byte list \<Rightarrow> world \<Rightarrow> world" where
  "append_payload dest d w =
     (case files w dest of
        None \<Rightarrow> w
      | Some x \<Rightarrow>
          w\<lparr> files := (files w)(dest \<mapsto> x\<lparr> fdata := fdata x @ d \<rparr>),
             journal := journal w @ write_events dest (length (fdata x)) d \<rparr>)"

text \<open>
  The loop over the map in closed form, for shards whose files are in place: payloads are
  appended in turn until one does not match its stored CRC.
\<close>

fun emit_result :: "platform \<Rightarrow> string \<Rightarrow> shard list \<Rightarrow> 32 word \<Rightarrow> world \<Rightarrow> (error + 32 word) \<times> world" where
  "emit_result P dest [] total_crc w = (Inr total_crc, w)"
| "emit_result P dest (s # ss) total_crc w =
     (if intact P s
      then emit_result P dest ss (update_crc P total_crc (sh_payload s))
             (append_payload dest (sh_payload s) w)
      else (Inl (Is_damaged (sh_path s)), append_payload dest (sh_payload s) w))"

text \<open>A checksum that tells any change of a single byte.\<close>

definition detects_single_byte :: "platform \<Rightarrow> bool" where
  "detects_single_byte P \<longleftrightarrow>
     (\<forall>c xs i b. i < length xs \<and> b \<noteq> xs ! i \<longrightarrow>
        update_crc P c (xs[i := b]) \<noteq> update_crc P c xs)"

text \<open>The world with the bytes of one file replaced.\<close>

definition with_contents :: "world \<Rightarrow> string \<Rightarrow> byte list \<Rightarrow> world" where
  "with_contents w path d =
     w\<lparr> files := (files w)(path \<mapsto>
           \<lparr> fdata = d, fmode = (case files w path of None \<Rightarrow> 420 | Some x \<Rightarrow> fmode x) \<rparr>) \<rparr>"

text \<open>
  What \<open>join\<close> returns for shards that are on disk, in closed form: the output is created,
  the payloads go to it in index order as far as they are intact, and the totals are
  compared at the end.
\<close>

definition join_result :: "platform \<Rightarrow> world \<Rightarrow> shard list \<Rightarrow> (error + unit) \<times> world" where
  "join_result P w ss =
     (let master = sh_hdr (hd ss);
          r = emit_result P (dest_path ss) (in_index_order ss) 0
                (snd (open_rw (original_name master) 511 w))
      in case fst r of
           Inl e \<Rightarrow> (Inl e, snd r)
         | Inr total_crc \<Rightarrow>
             (if of_nat (file_size (snd r) (dest_path ss)) \<noteq> original_size master \<or>
                 total_crc \<noteq> original_crc master
              then Inl Did_not_reconstruct else Inr (), snd r))"


text \<open>A shard with byte \<open>i\<close> of its payload set to \<open>b\<close>, and the bytes of its file then.\<close>

definition damaged :: "shard \<Rightarrow> nat \<Rightarrow> byte \<Rightarrow> shard" where
  "damaged s i b = (sh_path s, sh_hdr s, (sh_payload s)[i := b])"

definition shard_bytes :: "platform \<Rightarrow> shard \<Rightarrow> byte list" where
  "shard_bytes P s = hdr_bytes P (sh_hdr s) @ sh_payload s"


text \<open>
  A set of two shards for the reference platform: \<open>r@1.2\<close> carries \<open>A\<close> and \<open>r@2.2\<close>
  carries \<open>B\<close>, of an original \<open>r\<close> that held \<open>AB\<close>.
\<close>

definition pair_hdr :: "16 word \<Rightarrow> byte list \<Rightarrow> shard_hdr_t" where
  "pair_hdr i d = zeroed_hdr\<lparr> magic := expected_magic, shard_idx := i, shard_count := 2,
       original_size := 2, original_crc := crc32_update 0 ''AB'', shard_size := 289,
       shard_crc := crc32_update 0 d,
       original_name := strcpy_zeroed name_capacity ''r'' \<rparr>"

definition pair_shards :: "shard list" where
  "pair_shards = [(''r@1.2'', pair_hdr 1 ''A'', ''A''), (''r@2.2'', pair_hdr 2 ''B'', ''B'')]"

definition pair_world :: world where
  "pair_world = world_of (map (\<lambda>s. (sh_path s, shard_bytes wire_platform s)) pair_shards)"

section \<open>Lemmas about the file operations, the loops and the reference platform\<close>

lemma write_exactly_Nil: "write_exactly f [] w = (Inr f, w)"
  by (simp add: write_exactly.simps)

lemma write_exactly_Some:
  assumes "files w (fd_path f) = Some x" "buffer \<noteq> []"
  shows "write_exactly f buffer w =
     (Inr (f\<lparr> fd_pos := fd_pos f + length buffer \<rparr>),
      w\<lparr> files := (files w)(fd_path f \<mapsto> x\<lparr> fdata :=
              take (fd_pos f) (fdata x) @ replicate (fd_pos f - length (fdata x)) NUL @ buffer
                @ drop (fd_pos f + length buffer) (fdata x) \<rparr>),
         journal := journal w @ [Write (fd_path f) (fd_pos f) buffer] \<rparr>)"
  using assms
  by (subst write_exactly.simps) (simp add: sys_write_def Let_def write_exactly_Nil)

lemma read_at_most_Some:
  "files w (fd_path f) = Some x \<Longrightarrow>
   read_at_most f n w = Inr (take n (drop (fd_pos f) (fdata x)),
      f\<lparr> fd_pos := fd_pos f + min n (length (fdata x) - fd_pos f) \<rparr>)"
  by (simp add: read_at_most_def Let_def min_def)

lemma read_exactly_Some:
  assumes "files w (fd_path f) = Some x" "fd_pos f + n \<le> length (fdata x)"
  shows "read_exactly f n w = Inr (take n (drop (fd_pos f) (fdata x)), f\<lparr> fd_pos := fd_pos f + n \<rparr>)"
proof (cases "n = 0")
  case True
  then show ?thesis by (simp add: read_exactly.simps)
next
  case False
  with assms show ?thesis
    by (subst read_exactly.simps) (auto simp add: read_at_most_Some min_def read_exactly.simps)
qed

lemma platform_ok_len: "platform_ok P \<Longrightarrow> length (hdr_bytes P h) = unat (sizeof_shard_hdr P)"
  by (simp add: platform_ok_def)

lemma platform_ok_crc: "platform_ok P \<Longrightarrow> update_crc P (update_crc P c xs) ys = update_crc P c (xs @ ys)"
  by (simp add: platform_ok_def)

lemma platform_ok_crc0: "platform_ok P \<Longrightarrow> update_crc P c [] = c"
  by (simp add: platform_ok_def)

lemma platform_ok_dec:
  "platform_ok P \<Longrightarrow> length (original_name h) = name_capacity \<Longrightarrow> bytes_hdr P (hdr_bytes P h) = h"
  by (simp add: platform_ok_def)

lemma write_events_Nil: "write_events path pos [] = []"
  by (simp add: write_events.simps)

lemma copy_shard_done:
  "copy_shard P inp out 0 crc w = Some (Inr (crc, inp, out), w)"
  by (subst copy_shard.simps) simp

lemma copy_shard_copies:
  assumes ok: "platform_ok P"
    and "files w pi = Some xi" "files w po = Some xo" "pi \<noteq> po"
    and "unat sz \<le> length (fdata xi) - a"
  shows "copy_shard P \<lparr> fd_path = pi, fd_pos = a \<rparr> \<lparr> fd_path = po, fd_pos = length (fdata xo) \<rparr> sz crc w =
     Some (Inr (update_crc P crc (take (unat sz) (drop a (fdata xi))),
              \<lparr> fd_path = pi, fd_pos = a + unat sz \<rparr>,
              \<lparr> fd_path = po, fd_pos = length (fdata xo) + unat sz \<rparr>),
           w\<lparr> files := (files w)(po \<mapsto> xo\<lparr> fdata := fdata xo @ take (unat sz) (drop a (fdata xi)) \<rparr>),
              journal := journal w @ write_events po (length (fdata xo)) (take (unat sz) (drop a (fdata xi))) \<rparr>)"
  using assms(2-)
proof (induction "unat sz" arbitrary: sz a xo crc w rule: less_induct)
  case less
  let ?d = "fdata xi"
  show ?case
  proof (cases "sz = 0")
    case True
    then show ?thesis
      using less.prems by (simp add: copy_shard_done write_events_Nil platform_ok_crc0 [OF ok] map_upd_triv)
  next
    case False
    then have pos: "0 < unat sz" by (simp add: unat_gt_0)
    define n where "n = min 65536 (unat sz)"
    have n: "0 < n" "n \<le> unat sz" "n \<le> length ?d - a" "n \<le> 65536"
      using pos less.prems(4) by (auto simp: n_def)
    define buffer where "buffer = take n (drop a ?d)"
    have lb: "length buffer = n" using n by (simp add: buffer_def)
    have bne: "buffer \<noteq> []" using lb n by auto
    define sz' where "sz' = sz - of_nat n"
    have "of_nat n \<le> sz" using n(2) by (simp add: word_le_nat_alt le_unat_uoi)
    then have usz': "unat sz' = unat sz - n"
      using n(2) by (simp add: sz'_def unat_sub le_unat_uoi)
    define xo' where "xo' = xo\<lparr> fdata := fdata xo @ buffer \<rparr>"
    define w' where "w' = w\<lparr> files := (files w)(po \<mapsto> xo'),
                              journal := journal w @ [Write po (length (fdata xo)) buffer] \<rparr>"
    have rd: "read_at_most \<lparr> fd_path = pi, fd_pos = a \<rparr> n w
               = Inr (buffer, \<lparr> fd_path = pi, fd_pos = a + n \<rparr>)"
      using less.prems(1) n by (simp add: read_at_most_Some buffer_def min_def)
    have wr: "write_exactly \<lparr> fd_path = po, fd_pos = length (fdata xo) \<rparr> buffer w
               = (Inr \<lparr> fd_path = po, fd_pos = length (fdata xo') \<rparr>, w')"
      using less.prems(2) bne by (simp add: write_exactly_Some w'_def xo'_def)
    have IH: "copy_shard P \<lparr> fd_path = pi, fd_pos = a + n \<rparr> \<lparr> fd_path = po, fd_pos = length (fdata xo') \<rparr>
                sz' (update_crc P crc buffer) w' =
       Some (Inr (update_crc P (update_crc P crc buffer) (take (unat sz') (drop (a + n) ?d)),
              \<lparr> fd_path = pi, fd_pos = a + n + unat sz' \<rparr>,
              \<lparr> fd_path = po, fd_pos = length (fdata xo') + unat sz' \<rparr>),
           w'\<lparr> files := (files w')(po \<mapsto> xo'\<lparr> fdata := fdata xo' @ take (unat sz') (drop (a + n) ?d) \<rparr>),
              journal := journal w' @ write_events po (length (fdata xo')) (take (unat sz') (drop (a + n) ?d)) \<rparr>)"
      using less.prems n usz' pos
      by (intro less.hyps) (auto simp: w'_def)
    have split_chunk: "take (unat sz) (drop a ?d) = buffer @ take (unat sz') (drop (a + n) ?d)"
    proof -
      have "unat sz = n + unat sz'" using usz' n by simp
      then show ?thesis
        by (simp add: buffer_def take_add add.commute)
    qed
    have ev: "write_events po (length (fdata xo)) (take (unat sz) (drop a ?d)) =
        Write po (length (fdata xo)) buffer
          # write_events po (length (fdata xo')) (take (unat sz') (drop (a + n) ?d))"
    proof (cases "unat sz' = 0")
      case True
      then have "take (unat sz) (drop a ?d) = buffer" using split_chunk by simp
      then show ?thesis using True bne lb n
        by (subst write_events.simps) (simp add: write_events_Nil)
    next
      case False
      then have "n = 65536" using usz' by (auto simp: n_def min_def split: if_splits)
      then show ?thesis using lb bne
        by (subst write_events.simps) (simp add: split_chunk xo'_def)
    qed
    have step: "copy_shard P \<lparr> fd_path = pi, fd_pos = a \<rparr> \<lparr> fd_path = po, fd_pos = length (fdata xo) \<rparr> sz crc w
        = copy_shard P \<lparr> fd_path = pi, fd_pos = a + n \<rparr> \<lparr> fd_path = po, fd_pos = length (fdata xo') \<rparr>
                sz' (update_crc P crc buffer) w'"
      apply (subst copy_shard.simps)
      apply (fold n_def)
      apply (simp add: False rd wr sz'_def lb)
      done
    have fin: "(files w')(po \<mapsto> xo'\<lparr> fdata := fdata xo' @ take (unat sz') (drop (a + n) ?d) \<rparr>)
        = (files w)(po \<mapsto> xo\<lparr> fdata := fdata xo @ take (unat sz) (drop a ?d) \<rparr>)"
      by (simp add: w'_def xo'_def split_chunk)
    have pos_eq: "a + n + unat sz' = a + unat sz" "length (fdata xo') + unat sz' = length (fdata xo) + unat sz"
      using n usz' by (simp_all add: xo'_def lb)
    show ?thesis
      unfolding step IH fin pos_eq platform_ok_crc [OF ok] split_chunk [symmetric]
      by (simp add: w'_def ev)
  qed
qed

lemma take_drop_len: "take n xs @ drop (length (take n xs)) xs = xs"
  by (simp add: min_def)

lemma crc_pass_reads_all:
  assumes ok: "platform_ok P" and "files w pi = Some xi" "a \<le> length (fdata xi)"
  shows "crc_pass P \<lparr> fd_path = pi, fd_pos = a \<rparr> crc w =
     Inr (update_crc P crc (drop a (fdata xi)), \<lparr> fd_path = pi, fd_pos = length (fdata xi) \<rparr>)"
  using assms(2-)
proof (induction "length (fdata xi) - a" arbitrary: a crc rule: less_induct)
  case less
  let ?d = "fdata xi"
  define buffer where "buffer = take 65536 (drop a ?d)"
  have rd: "read_at_most \<lparr> fd_path = pi, fd_pos = a \<rparr> 65536 w
             = Inr (buffer, \<lparr> fd_path = pi, fd_pos = a + length buffer \<rparr>)"
    using less.prems by (simp add: read_at_most_Some buffer_def min_def)
  show ?case
  proof (cases "length buffer = 0")
    case True
    then have a: "a = length ?d" using less.prems by (auto simp: buffer_def)
    have "crc_pass P \<lparr> fd_path = pi, fd_pos = a \<rparr> crc w
        = Inr (crc, \<lparr> fd_path = pi, fd_pos = a + length buffer \<rparr>)"
      using True by (subst crc_pass.simps) (simp add: rd)
    then show ?thesis using True a
      by (simp add: platform_ok_crc0 [OF ok])
  next
    case False
    then have lt: "a < length ?d" by (auto simp: buffer_def)
    have le: "a + length buffer \<le> length ?d" using less.prems by (auto simp add: buffer_def min_def)
    have dec: "length ?d - (a + length buffer) < length ?d - a"
      using False lt by (cases buffer) auto
    have IH: "crc_pass P \<lparr> fd_path = pi, fd_pos = a + length buffer \<rparr> (update_crc P crc buffer) w =
       Inr (update_crc P (update_crc P crc buffer) (drop (a + length buffer) ?d),
            \<lparr> fd_path = pi, fd_pos = length ?d \<rparr>)"
      using less.prems(1) le dec by (intro less.hyps) auto
    have cat: "buffer @ drop (a + length buffer) ?d = drop a ?d"
      using take_drop_len [of 65536 "drop a ?d"] by (simp add: buffer_def add.commute)
    have bne: "buffer \<noteq> []" using False by simp
    show ?thesis
      using bne by (subst crc_pass.simps) (simp add: rd IH platform_ok_crc [OF ok] cat)
  qed
qed

lemma append_shard_appends:
  assumes ok: "platform_ok P"
    and "files w pi = Some xi" "files w po = Some xo" "pi \<noteq> po" "a \<le> length (fdata xi)"
  shows "append_shard P \<lparr> fd_path = pi, fd_pos = a \<rparr> \<lparr> fd_path = po, fd_pos = length (fdata xo) \<rparr>
           total_crc crc w =
     Some (Inr (update_crc P total_crc (drop a (fdata xi)), update_crc P crc (drop a (fdata xi)),
              \<lparr> fd_path = po, fd_pos = length (fdata xo) + (length (fdata xi) - a) \<rparr>),
           w\<lparr> files := (files w)(po \<mapsto> xo\<lparr> fdata := fdata xo @ drop a (fdata xi) \<rparr>),
              journal := journal w @ write_events po (length (fdata xo)) (drop a (fdata xi)) \<rparr>)"
  using assms(2-)
proof (induction "length (fdata xi) - a" arbitrary: a xo total_crc crc w rule: less_induct)
  case less
  let ?d = "fdata xi"
  define buffer where "buffer = take 65536 (drop a ?d)"
  have rd: "read_at_most \<lparr> fd_path = pi, fd_pos = a \<rparr> 65536 w
             = Inr (buffer, \<lparr> fd_path = pi, fd_pos = a + length buffer \<rparr>)"
    using less.prems by (simp add: read_at_most_Some buffer_def min_def)
  show ?case
  proof (cases "length buffer = 0")
    case True
    then have a: "a = length ?d" using less.prems by (auto simp: buffer_def)
    have "append_shard P \<lparr> fd_path = pi, fd_pos = a \<rparr> \<lparr> fd_path = po, fd_pos = length (fdata xo) \<rparr>
           total_crc crc w
        = Some (Inr (total_crc, crc, \<lparr> fd_path = po, fd_pos = length (fdata xo) \<rparr>), w)"
      using True by (subst append_shard.simps) (simp add: rd)
    then show ?thesis using True a less.prems
      by (simp add: platform_ok_crc0 [OF ok] write_events_Nil map_upd_triv)
  next
    case False
    then have lt: "a < length ?d" and bne: "buffer \<noteq> []" by (auto simp: buffer_def)
    have le: "a + length buffer \<le> length ?d" using less.prems by (auto simp add: buffer_def min_def)
    have dec: "length ?d - (a + length buffer) < length ?d - a"
      using False lt by (cases buffer) auto
    define xo' where "xo' = xo\<lparr> fdata := fdata xo @ buffer \<rparr>"
    define w' where "w' = w\<lparr> files := (files w)(po \<mapsto> xo'),
                              journal := journal w @ [Write po (length (fdata xo)) buffer] \<rparr>"
    have wr: "write_exactly \<lparr> fd_path = po, fd_pos = length (fdata xo) \<rparr> buffer w
               = (Inr \<lparr> fd_path = po, fd_pos = length (fdata xo') \<rparr>, w')"
      using less.prems(2) bne by (simp add: write_exactly_Some w'_def xo'_def)
    let ?rest = "drop (a + length buffer) ?d"
    have IH: "append_shard P \<lparr> fd_path = pi, fd_pos = a + length buffer \<rparr>
                \<lparr> fd_path = po, fd_pos = length (fdata xo') \<rparr>
                (update_crc P total_crc buffer) (update_crc P crc buffer) w' =
       Some (Inr (update_crc P (update_crc P total_crc buffer) ?rest,
                  update_crc P (update_crc P crc buffer) ?rest,
              \<lparr> fd_path = po, fd_pos = length (fdata xo') + (length ?d - (a + length buffer)) \<rparr>),
           w'\<lparr> files := (files w')(po \<mapsto> xo'\<lparr> fdata := fdata xo' @ ?rest \<rparr>),
              journal := journal w' @ write_events po (length (fdata xo')) ?rest \<rparr>)"
      using less.prems le dec
      by (intro less.hyps) (auto simp: w'_def)
    have cat: "buffer @ ?rest = drop a ?d"
      using take_drop_len [of 65536 "drop a ?d"] by (simp add: buffer_def add.commute)
    have ev: "write_events po (length (fdata xo)) (drop a ?d) =
        Write po (length (fdata xo)) buffer # write_events po (length (fdata xo')) ?rest"
    proof (cases "?rest = []")
      case True
      then have "drop a ?d = buffer" using cat by simp
      moreover have "drop 65536 buffer = []" by (simp add: buffer_def)
      moreover have "take 65536 buffer = buffer" by (simp add: buffer_def)
      ultimately show ?thesis using True bne
        by (subst write_events.simps) (simp add: write_events_Nil)
    next
      case False
      then have "a + length buffer < length ?d" by simp
      then have "length buffer = 65536" by (auto simp: buffer_def min_def split: if_splits)
      moreover have "drop a ?d \<noteq> []" using lt by simp
      ultimately show ?thesis
        by (subst write_events.simps) (simp add: xo'_def buffer_def add.commute)
    qed
    have step: "append_shard P \<lparr> fd_path = pi, fd_pos = a \<rparr> \<lparr> fd_path = po, fd_pos = length (fdata xo) \<rparr>
           total_crc crc w =
        append_shard P \<lparr> fd_path = pi, fd_pos = a + length buffer \<rparr>
                \<lparr> fd_path = po, fd_pos = length (fdata xo') \<rparr>
                (update_crc P total_crc buffer) (update_crc P crc buffer) w'"
      using bne by (subst append_shard.simps) (simp add: rd wr)
    have fin: "(files w')(po \<mapsto> xo'\<lparr> fdata := fdata xo' @ ?rest \<rparr>)
        = (files w)(po \<mapsto> xo\<lparr> fdata := fdata xo @ drop a ?d \<rparr>)"
      by (simp add: w'_def xo'_def cat)
    have pos_eq: "length (fdata xo') + (length ?d - (a + length buffer)) = length (fdata xo) + (length ?d - a)"
      using le by (simp add: xo'_def)
    show ?thesis
      unfolding step IH fin pos_eq platform_ok_crc [OF ok] cat
      by (simp add: w'_def ev)
  qed
qed

lemma open_shard_ok:
  assumes ok: "platform_ok P" and sf: "shard_file P w path h payload"
  shows "open_shard P path w = Inr (h, \<lparr> fd_path = c_str path, fd_pos = unat (sizeof_shard_hdr P) \<rparr>)"
proof -
  from sf obtain x where x: "files w (c_str path) = Some x" "fdata x = hdr_bytes P h @ payload"
    and nm: "length (original_name h) = name_capacity" and mg: "magic h = expected_magic"
    and sz: "unat (shard_size h) = length (hdr_bytes P h @ payload)"
    by (auto simp: shard_file_def)
  have len: "length (hdr_bytes P h) = unat (sizeof_shard_hdr P)" by (rule platform_ok_len [OF ok])
  have sz': "shard_size h = of_nat (length (fdata x))"
    using sz x(2) le_unat_uoi [of "length (fdata x)" "shard_size h"]
    by (simp add: word_unat_eq_iff)
  have ge: "\<not> (of_nat (length (fdata x)) :: 64 word) < sizeof_shard_hdr P"
    using sz len x(2) unfolding sz' [symmetric] by (simp add: word_less_nat_alt)
  have rd: "read_exactly \<lparr> fd_path = c_str path, fd_pos = 0 \<rparr> (unat (sizeof_shard_hdr P)) w
      = Inr (hdr_bytes P h, \<lparr> fd_path = c_str path, fd_pos = unat (sizeof_shard_hdr P) \<rparr>)"
    using x len by (simp add: read_exactly_Some)
  show ?thesis
    using x(1) ge rd mg sz'
    by (simp add: open_shard_def open_ro_def get_size_and_mode_def platform_ok_dec [OF ok nm])
qed

lemma digit_inj:
  assumes "a < 10" "b < 10" "''0123456789'' ! a = ''0123456789'' ! b"
  shows "a = b"
proof -
  have "distinct ''0123456789''" by simp
  moreover have "a < length ''0123456789''" "b < length ''0123456789''" using assms by simp_all
  ultimately show ?thesis using assms(3) nth_eq_iff_index_eq by blast
qed

lemma show_nat_digits: "set (show_nat n) \<subseteq> set ''0123456789''"
proof (induction n rule: show_nat.induct)
  case (1 n)
  have m: "n mod 10 < length ''0123456789''" by simp
  show ?case
  proof (cases "n < 10")
    case True
    then have "n < length ''0123456789''" by simp
    then have "''0123456789'' ! n \<in> set ''0123456789''" by (rule nth_mem)
    then show ?thesis using True by (subst show_nat.simps) simp
  next
    case False
    have "''0123456789'' ! (n mod 10) \<in> set ''0123456789''" using m by (rule nth_mem)
    then show ?thesis using False 1
      by (subst show_nat.simps) simp
  qed
qed

lemma show_nat_ne: "show_nat n \<noteq> []"
  by (subst show_nat.simps) simp

lemma show_nat_inj: "show_nat n = show_nat m \<Longrightarrow> n = m"
proof (induction n arbitrary: m rule: show_nat.induct)
  case (1 n)
  show ?case
  proof (cases "n < 10")
    case n: True
    show ?thesis
    proof (cases "m < 10")
      case True
      with n 1(2) show ?thesis
        by (simp add: show_nat.simps [of n] show_nat.simps [of m] digit_inj)
    next
      case False
      with n 1(2) show_nat_ne [of "m div 10"] show ?thesis
        by (simp add: show_nat.simps [of n] show_nat.simps [of m])
    qed
  next
    case n: False
    show ?thesis
    proof (cases "m < 10")
      case True
      with n 1(2) show_nat_ne [of "n div 10"] show ?thesis
        by (simp add: show_nat.simps [of n] show_nat.simps [of m])
    next
      case False
      with n 1(2) have e: "show_nat (n div 10) = show_nat (m div 10)"
        and d: "''0123456789'' ! (n mod 10) = ''0123456789'' ! (m mod 10)"
        by (simp_all add: show_nat.simps [of n] show_nat.simps [of m])
      from 1(1) [OF n e] have "n div 10 = m div 10" .
      moreover from d have "n mod 10 = m mod 10" by (intro digit_inj) simp_all
      ultimately show ?thesis by (metis div_mult_mod_eq)
    qed
  qed
qed

lemma c_str_no_NUL: "NUL \<notin> set s \<Longrightarrow> c_str s = s"
  by (auto simp add: c_str_def takeWhile_eq_all_conv)

lemma show_nat_no_NUL: "NUL \<notin> set (show_nat n)"
  using show_nat_digits [of n] by (auto simp: NUL_def)

lemma make_shard_name_c_str:
  "NUL \<notin> set path \<Longrightarrow> c_str (make_shard_name path i n) = make_shard_name path i n"
  using show_nat_no_NUL [of i] show_nat_no_NUL [of n]
  by (intro c_str_no_NUL) (auto simp: make_shard_name_def NUL_def)

lemma make_shard_name_inj:
  "make_shard_name path i n = make_shard_name path j n \<Longrightarrow> i = j"
proof -
  assume "make_shard_name path i n = make_shard_name path j n"
  then have "show_nat i @ ''.'' @ show_nat n = show_nat j @ ''.'' @ show_nat n"
    by (simp add: make_shard_name_def)
  then have "show_nat i = show_nat j" by simp
  then show ?thesis by (rule show_nat_inj)
qed

lemma make_shard_name_ne_path: "make_shard_name path i n \<noteq> path"
  by (simp add: make_shard_name_def)

lemma platform_ok_hdr_pos:
  assumes ok: "platform_ok P"
  shows "0 < unat (sizeof_shard_hdr P)"
proof (rule ccontr)
  assume "\<not> 0 < unat (sizeof_shard_hdr P)"
  then have z: "\<And>h. hdr_bytes P h = []" using platform_ok_len [OF ok] by simp
  have "length (original_name zeroed_hdr) = name_capacity"
    "length (original_name (zeroed_hdr\<lparr> magic := 1 \<rparr>)) = name_capacity"
    by (simp_all add: zeroed_hdr_def)
  then have "bytes_hdr P (hdr_bytes P zeroed_hdr) = zeroed_hdr"
    "bytes_hdr P (hdr_bytes P (zeroed_hdr\<lparr> magic := 1 \<rparr>)) = zeroed_hdr\<lparr> magic := 1 \<rparr>"
    using platform_ok_dec [OF ok] by blast+
  then have "zeroed_hdr = zeroed_hdr\<lparr> magic := 1 \<rparr>" by (simp add: z)
  then have "magic zeroed_hdr = magic (zeroed_hdr\<lparr> magic := 1 \<rparr>)" by simp
  then show False by (simp add: zeroed_hdr_def)
qed

lemma unat_min: "unat (min (x::'a::len word) y) = min (unat x) (unat y)"
  by (simp add: min_def word_le_nat_alt)

lemma emit_shards_Nil: "emit_shards P file_name mode count base c data [] w = w"
  by (simp add: emit_shards_def)

lemma emit_shards_Cons:
  "emit_shards P file_name mode count base c data (i # js) w =
   emit_shards P file_name mode count base c data js (emit_shard P file_name mode count base c data i w)"
  by (simp add: emit_shards_def)

text \<open>One turn of the loop.\<close>

lemma split_loop_turn:
  assumes ok: "platform_ok P"
    and nonul: "NUL \<notin> set file_name"
    and src: "files w (c_str file_name) = Some xs" "fdata xs = data"
    and i: "1 \<le> i" "i \<le> unat count" "unat count < 65535"
    and a: "a = min (length data) ((i - 1) * c)" and c: "c = shard_capacity P max_shard_size"
    and insz: "unat in_size = length data - a"
    and hdr: "hdr = base\<lparr> shard_idx := shard_idx hdr, shard_size := shard_size hdr,
          shard_crc := (if i = 1 then shard_crc base else update_crc P 0 (shard_payload c data (i - 1))) \<rparr>"
  shows "split_loop P file_name max_shard_size mode count (of_nat i)
            \<lparr> fd_path = c_str file_name, fd_pos = a \<rparr> in_size hdr w =
         split_loop P file_name max_shard_size mode count (of_nat (Suc i))
            \<lparr> fd_path = c_str file_name, fd_pos = min (length data) (i * c) \<rparr>
            (in_size - of_nat (length (shard_payload c data i)))
            (final_hdr P base c data i)
            (emit_shard P file_name mode (unat count) base c data i w)"
proof -
  let ?hs = "unat (sizeof_shard_hdr P)"
  let ?idx = "of_nat i :: 16 word"
  have hs: "0 < ?hs" by (rule platform_ok_hdr_pos [OF ok])
  have uidx: "unat ?idx = i" using i by (simp add: unat_of_nat)
  have le: "?idx \<le> count" using i uidx by (simp add: word_le_nat_alt)
  define path where "path = shard_path file_name (unat count) i"
  have path: "path = make_shard_name file_name i (unat count)"
    by (simp add: path_def shard_path_def make_shard_name_c_str [OF nonul])
  have srcp: "c_str file_name = file_name" by (rule c_str_no_NUL [OF nonul])
  have pne: "path \<noteq> c_str file_name" by (simp add: path srcp make_shard_name_ne_path)
  define payload where "payload = shard_payload c data i"
  define sz where "sz = min (max_shard_size - sizeof_shard_hdr P) in_size"
  have usz: "unat sz = min c (length data - a)"
    by (simp add: sz_def unat_min c shard_capacity_def insz)
  have pl: "payload = take (unat sz) (drop a data)"
  proof (cases "(i - 1) * c \<le> length data")
    case True
    then have "a = (i - 1) * c" using a by simp
    then show ?thesis by (simp add: payload_def shard_payload_def usz min_def)
  next
    case False
    then have "a = length data" using a by simp
    then show ?thesis using False by (simp add: payload_def shard_payload_def usz)
  qed
  have lpl: "length payload = unat sz" by (simp add: pl usz)
  have szw: "of_nat (length payload) = sz" by (simp add: lpl)
  define m where "m = (case files w path of None \<Rightarrow> mode | Some x \<Rightarrow> fmode x)"
  define w1 where "w1 = w\<lparr> files := (files w)(path \<mapsto> \<lparr> fdata = [], fmode = m \<rparr>),
                             journal := journal w @ [Creat path mode] \<rparr>"
  have op: "open_rw (make_shard_name file_name (unat ?idx) (unat count)) mode w
             = (Inr \<lparr> fd_path = path, fd_pos = 0 \<rparr>, w1)"
    by (simp add: open_rw_def Let_def uidx w1_def m_def path_def shard_path_def)
  define hdr1 where "hdr1 = hdr\<lparr> shard_idx := ?idx, shard_size := sz + sizeof_shard_hdr P \<rparr>"
  have flds: "magic hdr = magic base" "shard_count hdr = shard_count base"
      "original_size hdr = original_size base" "original_crc hdr = original_crc base"
      "original_name hdr = original_name base"
      "shard_crc hdr = (if i = 1 then shard_crc base else update_crc P 0 (shard_payload c data (i - 1)))"
    using arg_cong [OF hdr, of magic] arg_cong [OF hdr, of shard_count]
      arg_cong [OF hdr, of original_size] arg_cong [OF hdr, of original_crc]
      arg_cong [OF hdr, of original_name] arg_cong [OF hdr, of shard_crc]
    by simp_all
  have hdr1: "hdr1 = first_hdr P base c data i"
    by (rule shard_hdr_t.equality)
       (simp_all add: hdr1_def first_hdr_def final_hdr_def payload_def [symmetric] szw flds)
  have l1: "length (hdr_bytes P hdr1) = ?hs" by (rule platform_ok_len [OF ok])
  then have ne1: "hdr_bytes P hdr1 \<noteq> []" using hs by auto
  define w2 where "w2 = w\<lparr> files := (files w)(path \<mapsto> \<lparr> fdata = hdr_bytes P hdr1, fmode = m \<rparr>),
                             journal := journal w @ [Creat path mode, Write path 0 (hdr_bytes P hdr1)] \<rparr>"
  have wr1: "write_exactly \<lparr> fd_path = path, fd_pos = 0 \<rparr> (hdr_bytes P hdr1) w1
      = (Inr \<lparr> fd_path = path, fd_pos = ?hs \<rparr>, w2)"
    using ne1 by (subst write_exactly_Some [where x = "\<lparr> fdata = [], fmode = m \<rparr>"])
                 (simp_all add: w1_def w2_def l1)
  define w3 where "w3 = w2\<lparr> files := (files w2)(path \<mapsto> \<lparr> fdata = hdr_bytes P hdr1 @ payload, fmode = m \<rparr>),
                              journal := journal w2 @ write_events path ?hs payload \<rparr>"
  have cp: "copy_shard P \<lparr> fd_path = c_str file_name, fd_pos = a \<rparr> \<lparr> fd_path = path, fd_pos = ?hs \<rparr> sz 0 w2
      = Some (Inr (update_crc P 0 payload, \<lparr> fd_path = c_str file_name, fd_pos = a + unat sz \<rparr>,
                   \<lparr> fd_path = path, fd_pos = ?hs + unat sz \<rparr>), w3)"
  proof -
    have "files w2 (c_str file_name) = Some xs" using src pne by (simp add: w2_def)
    moreover have "files w2 path = Some \<lparr> fdata = hdr_bytes P hdr1, fmode = m \<rparr>" by (simp add: w2_def)
    moreover have "unat sz \<le> length (fdata xs) - a" by (simp add: usz src)
    ultimately show ?thesis
      using copy_shard_copies [OF ok, of w2 "c_str file_name" xs path
          "\<lparr> fdata = hdr_bytes P hdr1, fmode = m \<rparr>" sz a 0] pne
      by (simp add: l1 src pl w3_def)
  qed
  define hdr2 where "hdr2 = hdr1\<lparr> shard_crc := update_crc P 0 payload \<rparr>"
  have hdr2: "hdr2 = final_hdr P base c data i"
    by (simp add: hdr2_def hdr1 first_hdr_def final_hdr_def payload_def)
  have l2: "length (hdr_bytes P hdr2) = ?hs" by (rule platform_ok_len [OF ok])
  then have ne2: "hdr_bytes P hdr2 \<noteq> []" using hs by auto
  have sk: "seek \<lparr> fd_path = path, fd_pos = ?hs + unat sz \<rparr> 0 SEEK_SET w3
      = Inr (0, \<lparr> fd_path = path, fd_pos = 0 \<rparr>)"
    by (simp add: seek_def w3_def)
  define w4 where "w4 = emit_shard P file_name mode (unat count) base c data i w"
  have wr2: "write_exactly \<lparr> fd_path = path, fd_pos = 0 \<rparr> (hdr_bytes P hdr2) w3 = (Inr \<lparr> fd_path = path, fd_pos = ?hs \<rparr>, w4)"
    using ne2
    by (subst write_exactly_Some [where x = "\<lparr> fdata = hdr_bytes P hdr1 @ payload, fmode = m \<rparr>"])
       (simp_all add: w3_def w2_def w4_def emit_shard_def shard_events_def l1 l2
          path_def [symmetric] payload_def [symmetric] hdr1 [symmetric] hdr2 [symmetric] m_def)
  have nxt: "(?idx + 1) = of_nat (Suc i)" by simp
  have a': "a + unat sz = min (length data) (i * c)"
  proof (cases "(i - 1) * c \<le> length data")
    case True
    define k where "k = (i - 1) * c"
    have "a = k" "k \<le> length data" using a True by (simp_all add: k_def)
    moreover have "i * c = k + c" using i(1) by (cases i) (simp_all add: k_def)
    ultimately show ?thesis unfolding usz by auto
  next
    case False
    then have "a = length data" using a by simp
    moreover have "(i - 1) * c \<le> i * c" by (simp add: mult_le_mono1)
    then have "length data \<le> i * c" using False by linarith
    ultimately show ?thesis by (simp add: usz)
  qed
  show ?thesis
    apply (subst split_loop.simps)
    apply (simp only: le if_True op prod.case sum.case Let_def sz_def [symmetric] hdr1_def [symmetric] wr1)
    apply (simp only: cp Option.bind.simps prod.case sum.case hdr2_def [symmetric] sk wr2 nxt a')
    apply (simp add: w4_def hdr2 szw [symmetric] payload_def)
    done
qed

lemma shard_path_inj:
  "NUL \<notin> set file_name \<Longrightarrow> shard_path file_name n i = shard_path file_name n j \<Longrightarrow> i = j"
  by (simp add: shard_path_def make_shard_name_c_str make_shard_name_inj [of file_name i n j])

lemma shard_path_ne_src:
  "NUL \<notin> set file_name \<Longrightarrow> shard_path file_name n i \<noteq> c_str file_name"
  by (simp add: shard_path_def make_shard_name_c_str c_str_no_NUL make_shard_name_ne_path)

lemma files_emit_shard_other:
  "p \<noteq> shard_path file_name n i \<Longrightarrow>
   files (emit_shard P file_name mode n base c data i w) p = files w p"
  by (simp add: emit_shard_def)

lemma files_emit_shard_same:
  "map_option fdata (files (emit_shard P file_name mode n base c data i w) (shard_path file_name n i))
    = Some (hdr_bytes P (final_hdr P base c data i) @ shard_payload c data i)"
  by (simp add: emit_shard_def)

lemma journal_emit_shard:
  "journal (emit_shard P file_name mode n base c data i w)
    = journal w @ shard_events P file_name mode n base c data i"
  by (simp add: emit_shard_def)

lemma files_emit_shards_other:
  "p \<notin> shard_path file_name n ` set js \<Longrightarrow>
   files (emit_shards P file_name mode n base c data js w) p = files w p"
  by (induction js arbitrary: w) (simp_all add: emit_shards_Nil emit_shards_Cons files_emit_shard_other)

lemma files_emit_shards_same:
  assumes "NUL \<notin> set file_name" "distinct js" "j \<in> set js"
  shows "map_option fdata (files (emit_shards P file_name mode n base c data js w) (shard_path file_name n j))
    = Some (hdr_bytes P (final_hdr P base c data j) @ shard_payload c data j)"
  using assms(2,3)
proof (induction js arbitrary: w)
  case Nil
  then show ?case by simp
next
  case (Cons i js)
  show ?case
  proof (cases "j = i")
    case True
    then have "shard_path file_name n j \<notin> shard_path file_name n ` set js"
      using Cons.prems(1) shard_path_inj [OF assms(1)] by auto
    then show ?thesis
      using True by (simp add: emit_shards_Cons files_emit_shards_other files_emit_shard_same)
  next
    case False
    then show ?thesis using Cons by (simp add: emit_shards_Cons)
  qed
qed

lemma journal_emit_shards:
  "journal (emit_shards P file_name mode n base c data js w)
    = journal w @ concat (map (shard_events P file_name mode n base c data) js)"
  by (induction js arbitrary: w) (simp_all add: emit_shards_Nil emit_shards_Cons journal_emit_shard)

lemma split_loop_emits:
  assumes ok: "platform_ok P"
    and nonul: "NUL \<notin> set file_name"
    and cnt: "unat count < 65535"
    and c: "c = shard_capacity P max_shard_size"
    and fd: "fdata xs = data"
    and src: "files w (c_str file_name) = Some xs"
    and i: "1 \<le> i" "i \<le> Suc (unat count)"
    and a: "a = min (length data) ((i - 1) * c)"
    and insz: "unat in_size = length data - a"
    and hdr: "hdr = base\<lparr> shard_idx := shard_idx hdr, shard_size := shard_size hdr,
          shard_crc := (if i = 1 then shard_crc base else update_crc P 0 (shard_payload c data (i - 1))) \<rparr>"
  shows "split_loop P file_name max_shard_size mode count (of_nat i)
            \<lparr> fd_path = c_str file_name, fd_pos = a \<rparr> in_size hdr w =
         Some (Inr (), emit_shards P file_name mode (unat count) base c data [i..<Suc (unat count)] w)"
  using src i a insz hdr
proof (induction "Suc (unat count) - i" arbitrary: i a in_size hdr w rule: less_induct)
  case less
  show ?case
  proof (cases "i = Suc (unat count)")
    case True
    have "i < 65536" using less.prems(3) cnt by simp
    then have "unat (of_nat i :: 16 word) = i" by (simp add: unat_of_nat)
    then have "\<not> (of_nat i :: 16 word) \<le> count" using True by (simp add: word_le_nat_alt)
    then have "split_loop P file_name max_shard_size mode count (of_nat i)
            \<lparr> fd_path = c_str file_name, fd_pos = a \<rparr> in_size hdr w = Some (Inr (), w)"
      by (subst split_loop.simps) simp
    then show ?thesis using True by (simp add: emit_shards_Nil)
  next
    case False
    then have i: "1 \<le> i" "i \<le> unat count" using less.prems by auto
    let ?pl = "shard_payload c data i"
    let ?w' = "emit_shard P file_name mode (unat count) base c data i w"
    have turn: "split_loop P file_name max_shard_size mode count (of_nat i)
            \<lparr> fd_path = c_str file_name, fd_pos = a \<rparr> in_size hdr w =
         split_loop P file_name max_shard_size mode count (of_nat (Suc i))
            \<lparr> fd_path = c_str file_name, fd_pos = min (length data) (i * c) \<rparr>
            (in_size - of_nat (length ?pl)) (final_hdr P base c data i) ?w'"
      using less.prems
      by (intro split_loop_turn [OF ok nonul _ fd i cnt _ c]) simp_all
    have lpl: "length ?pl = min c (length data - (i - 1) * c)"
      by (simp add: shard_payload_def)
    have lpl_le: "length ?pl \<le> unat in_size"
      using less.prems(4,5) by (simp add: lpl min_def)
    then have ule: "(of_nat (length ?pl) :: 64 word) \<le> in_size"
      by (simp add: word_le_nat_alt le_unat_uoi)
    have insz': "unat (in_size - of_nat (length ?pl)) = length data - min (length data) (i * c)"
    proof -
      define k where "k = (i - 1) * c"
      have "unat (in_size - of_nat (length ?pl)) = unat in_size - length ?pl"
        using ule lpl_le by (simp add: unat_sub le_unat_uoi)
      moreover have "i * c = k + c" using i(1) by (cases i) (simp_all add: k_def)
      moreover have "length ?pl = min c (length data - k)" by (simp add: lpl k_def)
      moreover have "unat in_size = length data - min (length data) k"
        using less.prems(4,5) by (simp add: k_def)
      moreover have "length data - min (length data) k - min c (length data - k)
          = length data - min (length data) (k + c)"
        by (auto simp: min_def)
      ultimately show ?thesis by simp
    qed
    have src': "files ?w' (c_str file_name) = Some xs"
      using less.prems(1) shard_path_ne_src [OF nonul, of "unat count" i]
      by (simp add: files_emit_shard_other)
    have hdr': "final_hdr P base c data i = base\<lparr> shard_idx := shard_idx (final_hdr P base c data i),
          shard_size := shard_size (final_hdr P base c data i),
          shard_crc := (if Suc i = 1 then shard_crc base
                        else update_crc P 0 (shard_payload c data (Suc i - 1))) \<rparr>"
      using i(1) by (simp add: final_hdr_def)
    have IH: "split_loop P file_name max_shard_size mode count (of_nat (Suc i))
            \<lparr> fd_path = c_str file_name, fd_pos = min (length data) (i * c) \<rparr>
            (in_size - of_nat (length ?pl)) (final_hdr P base c data i) ?w' =
         Some (Inr (), emit_shards P file_name mode (unat count) base c data [Suc i..<Suc (unat count)] ?w')"
      using i src' insz' hdr'
      by (intro less.hyps) simp_all
    have up: "[i..<Suc (unat count)] = i # [Suc i..<Suc (unat count)]"
      using i by (simp add: upt_conv_Cons del: upt_Suc)
    show ?thesis unfolding turn IH up emit_shards_Cons by (rule refl)
  qed
qed

lemma unat_ucast_16:
  fixes b :: "64 word"
  assumes "unat b < 65536"
  shows "unat (ucast b :: 16 word) = unat b"
proof -
  have "unat (ucast b :: 16 word) = take_bit 16 (unat b)"
    by (simp add: unsigned_ucast_eq)
  also have "\<dots> = unat b" using assms by (simp add: take_bit_nat_eq_self_iff)
  finally show ?thesis .
qed

lemma split_prelude:
  assumes ok: "platform_ok P"
    and src: "files w (c_str file_name) = Some xs" and fd: "fdata xs = data"
  shows "open_ro file_name w = Inr \<lparr> fd_path = c_str file_name, fd_pos = 0 \<rparr>"
    and "get_size_and_mode \<lparr> fd_path = c_str file_name, fd_pos = 0 \<rparr> w = Inr (of_nat (length data), fmode xs)"
    and "crc_pass P \<lparr> fd_path = c_str file_name, fd_pos = 0 \<rparr> 0 w
          = Inr (update_crc P 0 data, \<lparr> fd_path = c_str file_name, fd_pos = length data \<rparr>)"
    and "seek \<lparr> fd_path = c_str file_name, fd_pos = length data \<rparr> 0 SEEK_SET w
          = Inr (0, \<lparr> fd_path = c_str file_name, fd_pos = 0 \<rparr>)"
  using src fd crc_pass_reads_all [OF ok src, of 0 0]
  by (simp_all add: open_ro_def get_size_and_mode_def seek_def)

lemma split_emits:
  assumes ok: "platform_ok P"
    and nonul: "NUL \<notin> set file_name"
    and src: "files w (c_str file_name) = Some xs" and fd: "fdata xs = data"
    and len: "length data < 2 ^ 64"
    and M: "max_shard_size \<noteq> 0"
    and cnt: "unat (split_count max_shard_size data) < 65535"
    and nm: "length (base_name file_name) < name_capacity"
  shows "split P file_name max_shard_size w =
     Some (Inr (), emit_shards P file_name (fmode xs) (unat (split_count max_shard_size data))
                     (split_hdr P file_name max_shard_size data)
                     (shard_capacity P max_shard_size) data
                     [1..<Suc (unat (split_count max_shard_size data))] w)"
proof -
  let ?big = "split_count max_shard_size data"
  let ?count = "ucast ?big :: 16 word"
  let ?base = "split_hdr P file_name max_shard_size data"
  have ucount: "unat ?count = unat ?big" using cnt by (intro unat_ucast_16) simp
  have nbig: "\<not> ?big > 65535"
    using cnt by (simp add: word_less_nat_alt)
  have ulen: "unat (of_nat (length data) :: 64 word) = length data"
    using len by (simp add: unat_of_nat)
  have loop: "split_loop P file_name max_shard_size (fmode xs) ?count (of_nat 1)
            \<lparr> fd_path = c_str file_name, fd_pos = 0 \<rparr> (of_nat (length data)) ?base w =
         Some (Inr (), emit_shards P file_name (fmode xs) (unat ?count) ?base
                 (shard_capacity P max_shard_size) data [1..<Suc (unat ?count)] w)"
    using cnt ucount ulen
    by (intro split_loop_emits [OF ok nonul _ refl fd src]) simp_all
  show ?thesis
    using M nbig nm loop
    by (simp add: split_def split_prelude [OF ok src fd] Let_def split_count_def [symmetric]
          split_hdr_def [symmetric] ucount not_le [symmetric])
qed

lemma length_le_bytes: "length (le_bytes n x) = n"
  by (induction n arbitrary: x) simp_all

lemma le_nat_le_bytes: "le_nat (le_bytes n x) = x mod 256 ^ n"
proof (induction n arbitrary: x)
  case 0
  then show ?case by simp
next
  case (Suc n)
  have "x mod 256 + 256 * (x div 256 mod 256 ^ n) = x mod (256 * 256 ^ n)"
    by (simp add: mod_mult2_eq)
  then show ?case by (simp add: Suc)
qed

lemma le_word_32: "of_nat (le_nat (le_bytes 4 (unat (w :: 32 word)))) = w"
proof -
  have "unat w < 2 ^ 32" using unsigned_less [of w] by simp
  then have "unat w mod 256 ^ 4 = unat w" by simp
  then show ?thesis by (simp add: le_nat_le_bytes)
qed

lemma le_word_16: "of_nat (le_nat (le_bytes 2 (unat (w :: 16 word)))) = w"
proof -
  have "unat w < 2 ^ 16" using unsigned_less [of w] by simp
  then have "unat w mod 256 ^ 2 = unat w" by simp
  then show ?thesis by (simp add: le_nat_le_bytes)
qed

lemma le_word_64: "of_nat (le_nat (le_bytes 8 (unat (w :: 64 word)))) = w"
proof -
  have "unat w < 2 ^ 64" using unsigned_less [of w] by simp
  then have "unat w mod 256 ^ 8 = unat w" by simp
  then show ?thesis by (simp add: le_nat_le_bytes)
qed

lemma length_packed_hdr_bytes: "length (packed_hdr_bytes h) = 288"
  by (simp add: packed_hdr_bytes_def length_le_bytes name_capacity_def)

lemma packed_roundtrip:
  assumes "length (original_name h) = name_capacity"
  shows "packed_bytes_hdr (packed_hdr_bytes h) = h"
  using assms
  by (simp add: packed_bytes_hdr_def packed_hdr_bytes_def length_le_bytes
        le_word_16 le_word_32 le_word_64 name_capacity_def)

lemma crc32_update_Nil: "crc32_update c [] = c"
  by (simp add: crc32_update_def)

lemma crc32_update_append: "crc32_update (crc32_update c xs) ys = crc32_update c (xs @ ys)"
  by (simp add: crc32_update_def)

lemma wire_platform_ok: "platform_ok wire_platform"
  by (simp add: platform_ok_def wire_platform_def length_packed_hdr_bytes packed_roundtrip
        crc32_update_Nil crc32_update_append)


lemma crc_pass_returns:
  assumes "files w (fd_path f) = Some x"
  shows "\<exists>c pos. crc_pass P f crc w = Inr (c, \<lparr> fd_path = fd_path f, fd_pos = pos \<rparr>)"
  using assms
proof (induction P f crc w rule: crc_pass.induct)
  case (1 P inp crc w)
  define buffer where "buffer = take 65536 (drop (fd_pos inp) (fdata x))"
  define inp' where "inp' = inp\<lparr> fd_pos := fd_pos inp + length buffer \<rparr>"
  have rd: "read_at_most inp 65536 w = Inr (buffer, inp')"
    using 1(2) by (simp add: read_at_most_def buffer_def inp'_def)
  have p': "fd_path inp' = fd_path inp" by (simp add: inp'_def)
  show ?case
  proof (cases "buffer = []")
    case True
    have "inp' = \<lparr> fd_path = fd_path inp, fd_pos = fd_pos inp' \<rparr>"
      using p' by (cases inp') simp
    moreover have "crc_pass P inp crc w = Inr (crc, inp')"
      using True by (subst crc_pass.simps) (simp add: rd)
    ultimately show ?thesis by metis
  next
    case False
    then have "length buffer \<noteq> 0" by simp
    then have "\<exists>c pos. crc_pass P inp' (update_crc P crc buffer) w
        = Inr (c, \<lparr> fd_path = fd_path inp', fd_pos = pos \<rparr>)"
      using 1(2) p' by (intro 1(1) [OF rd]) simp_all
    moreover have "crc_pass P inp crc w = crc_pass P inp' (update_crc P crc buffer) w"
      using False by (subst crc_pass.simps) (simp add: rd)
    ultimately show ?thesis by (simp add: p')
  qed
qed

text \<open>What \<open>split\<close> does before its loop, for a source that is there.\<close>

lemma split_checks:
  assumes src: "files w (c_str file_name) = Some xs" and M: "max_shard_size \<noteq> 0"
  shows "65535 < split_count max_shard_size (fdata xs) \<Longrightarrow>
           split P file_name max_shard_size w = Some (Inl Big_file, w)"
    and "\<not> 65535 < split_count max_shard_size (fdata xs) \<Longrightarrow>
         name_capacity \<le> length (base_name file_name) \<Longrightarrow>
           split P file_name max_shard_size w = Some (Inl File_name_too_long, w)"
    and "\<not> 65535 < split_count max_shard_size (fdata xs) \<Longrightarrow>
         length (base_name file_name) < name_capacity \<Longrightarrow>
           \<exists>crc. split P file_name max_shard_size w =
             split_loop P file_name max_shard_size (fmode xs)
               (ucast (split_count max_shard_size (fdata xs))) 1
               \<lparr> fd_path = c_str file_name, fd_pos = 0 \<rparr> (of_nat (length (fdata xs)))
               (zeroed_hdr\<lparr> magic := expected_magic,
                   shard_count := ucast (split_count max_shard_size (fdata xs)),
                   original_size := of_nat (length (fdata xs)), original_crc := crc,
                   original_name := strcpy_zeroed name_capacity (base_name file_name) \<rparr>) w"
proof -
  let ?f0 = "\<lparr> fd_path = c_str file_name, fd_pos = 0 \<rparr>"
  have o: "open_ro file_name w = Inr ?f0" using src by (simp add: open_ro_def)
  have g: "get_size_and_mode ?f0 w = Inr (of_nat (length (fdata xs)), fmode xs)"
    using src by (simp add: get_size_and_mode_def)
  from crc_pass_returns [of w ?f0 xs P 0] src
  obtain c pos where cp: "crc_pass P ?f0 0 w = Inr (c, \<lparr> fd_path = c_str file_name, fd_pos = pos \<rparr>)"
    by auto
  have sk: "seek \<lparr> fd_path = c_str file_name, fd_pos = pos \<rparr> 0 SEEK_SET w = Inr (0, ?f0)"
    using src by (simp add: seek_def)
  note pre = o g cp sk
  show "65535 < split_count max_shard_size (fdata xs) \<Longrightarrow>
           split P file_name max_shard_size w = Some (Inl Big_file, w)"
    using M by (simp add: split_def pre Let_def split_count_def)
  show "\<not> 65535 < split_count max_shard_size (fdata xs) \<Longrightarrow>
         name_capacity \<le> length (base_name file_name) \<Longrightarrow>
           split P file_name max_shard_size w = Some (Inl File_name_too_long, w)"
    using M by (simp add: split_def pre Let_def split_count_def)
  show "\<not> 65535 < split_count max_shard_size (fdata xs) \<Longrightarrow>
         length (base_name file_name) < name_capacity \<Longrightarrow>
           \<exists>crc. split P file_name max_shard_size w =
             split_loop P file_name max_shard_size (fmode xs)
               (ucast (split_count max_shard_size (fdata xs))) 1
               \<lparr> fd_path = c_str file_name, fd_pos = 0 \<rparr> (of_nat (length (fdata xs)))
               (zeroed_hdr\<lparr> magic := expected_magic,
                   shard_count := ucast (split_count max_shard_size (fdata xs)),
                   original_size := of_nat (length (fdata xs)), original_crc := crc,
                   original_name := strcpy_zeroed name_capacity (base_name file_name) \<rparr>) w"
    using M by (auto simp add: split_def pre Let_def split_count_def not_le [symmetric])
qed

lemma split_count_Nil: "max_shard_size \<noteq> 0 \<Longrightarrow> split_count max_shard_size [] = 0"
proof -
  assume M: "max_shard_size \<noteq> 0"
  then have "max_shard_size - 1 < max_shard_size"
    by (simp add: word_less_nat_alt unat_minus_one unat_gt_0)
  then have "(max_shard_size - 1) div max_shard_size = 0"
    by (simp add: word_less_nat_alt word_unat_eq_iff unat_div)
  then show ?thesis by (simp add: split_count_def)
qed

lemma split_loop_no_shards:
  "split_loop P file_name max_shard_size mode 0 1 inp in_size hdr w = Some (Inr (), w)"
  by (subst split_loop.simps) simp

lemma created_append: "created (xs @ ys) = created xs @ created ys"
  by (induction xs rule: created.induct) simp_all

lemma created_write_events: "created (write_events path pos xs) = []"
proof (induction path pos xs rule: write_events.induct)
  case (1 path pos xs)
  then show ?case by (subst write_events.simps) simp
qed

lemma created_shard_events:
  "created (shard_events P file_name mode n base c data i) = [shard_path file_name n i]"
  by (simp add: shard_events_def created_append created_write_events)

lemma created_emit_shards:
  "created (journal (emit_shards P file_name mode n base c data js w))
     = created (journal w) @ map (shard_path file_name n) js"
  by (induction js arbitrary: w)
     (simp_all add: emit_shards_Nil emit_shards_Cons journal_emit_shard created_append
        created_shard_events)

lemma show_nat_1: "show_nat 1 = ''1''"
  by (simp add: show_nat.simps)

lemma base_name_no_slash: "CHR ''/'' \<notin> set s \<Longrightarrow> NUL \<notin> set s \<Longrightarrow> base_name s = s"
  by (simp add: base_name_def strrchr_def c_str_no_NUL)

lemma name255_facts:
  "NUL \<notin> set name255" "c_str name255 = name255" "base_name name255 = name255"
  "length name255 = 255"
proof -
  show n: "NUL \<notin> set name255" by (simp add: name255_def NUL_def)
  then show "c_str name255 = name255" by (rule c_str_no_NUL)
  show "base_name name255 = name255" using n by (intro base_name_no_slash) (simp_all add: name255_def)
  show "length name255 = 255" by (simp add: name255_def)
qed

lemma dir255_facts:
  "NUL \<notin> set dir255" "c_str dir255 = dir255" "base_name dir255 = name255"
proof -
  show n: "NUL \<notin> set dir255" by (simp add: dir255_def name255_def NUL_def)
  then show c: "c_str dir255 = dir255" by (rule c_str_no_NUL)
  have "takeWhile (\<lambda>x. x \<noteq> CHR ''/'') (rev name255 @ ''/d'')
          = rev name255 @ takeWhile (\<lambda>x. x \<noteq> CHR ''/'') ''/d''"
    by (rule takeWhile_append2) (simp add: name255_def)
  then have "takeWhile (\<lambda>x. x \<noteq> CHR ''/'') (rev name255 @ ''/d'') = rev name255"
    by simp
  then have "strrchr dir255 CHR ''/'' = Some (CHR ''/'' # name255)"
    by (simp add: strrchr_def dir255_def)
  then show "base_name dir255 = name255"
    by (simp add: base_name_def c)
qed

lemma contents_emit_shards:
  assumes "NUL \<notin> set file_name" "distinct js" "j \<in> set js"
  shows "contents (emit_shards P file_name mode n base c data js w) (shard_path file_name n j)
    = Some (hdr_bytes P (final_hdr P base c data j) @ shard_payload c data j)"
  unfolding contents_def by (rule files_emit_shards_same [OF assms])

lemma payload_of_emit_shards:
  assumes "platform_ok P" "NUL \<notin> set file_name" "distinct js" "j \<in> set js"
  shows "payload_of P (emit_shards P file_name mode n base c data js w) (shard_path file_name n j)
    = Some (shard_payload c data j)"
  by (simp add: payload_of_def contents_emit_shards [OF assms(2-)] platform_ok_len [OF assms(1)])

lemma status_after_split:
  "split P file_name max_shard_size w = Some (r, w') \<Longrightarrow>
   split_status P file_name max_shard_size w = Some r \<and>
   after_split P file_name max_shard_size w = w'"
  by (simp add: split_status_def after_split_def)

text \<open>The shard count in plain arithmetic, when the 64-bit sum does not wrap.\<close>

lemma unat_split_count:
  assumes "max_shard_size \<noteq> 0" and "length data + unat max_shard_size \<le> 2 ^ 64"
  shows "unat (split_count max_shard_size data)
     = (length data + unat max_shard_size - 1) div unat max_shard_size"
proof -
  have m: "0 < unat max_shard_size" using assms(1) by (simp add: unat_gt_0)
  have l: "length data < 2 ^ 64" using assms(2) m by simp
  then have ul: "unat (of_nat (length data) :: 64 word) = length data"
    by (simp add: unat_of_nat)
  have um: "unat (max_shard_size - 1) = unat max_shard_size - 1"
    using assms(1) by (simp add: unat_minus_one)
  have "unat (of_nat (length data) + max_shard_size - 1 :: 64 word)
      = unat (of_nat (length data) + (max_shard_size - 1) :: 64 word)"
    by (simp add: add_diff_eq)
  also have "\<dots> = unat (of_nat (length data) :: 64 word) + unat (max_shard_size - 1)"
    using assms(2) m ul um by (subst unat_add_lem [symmetric]) simp
  also have "\<dots> = length data + unat max_shard_size - 1"
    using ul um m by simp
  finally have "unat (of_nat (length data) + max_shard_size - 1 :: 64 word)
      = length data + unat max_shard_size - 1" .
  then show ?thesis by (simp add: split_count_def unat_div)
qed

lemma ceil_div_bounds:
  fixes s m :: nat
  assumes "0 < m" "0 < s"
  shows "((s + m - 1) div m - 1) * m < s" and "s \<le> (s + m - 1) div m * m"
proof -
  let ?n = "(s + m - 1) div m"
  have a: "?n * m \<le> s + m - 1" by (simp add: div_times_less_eq_dividend)
  have "0 < ?n" using assms by (simp add: div_greater_zero_iff)
  then have "(?n - 1) * m + m = ?n * m" by (cases ?n) simp_all
  with a assms show "(?n - 1) * m < s" by linarith
  have "s + m - 1 < ?n * m + m"
    using assms(1) by (metis add.commute dividend_less_div_times mult.commute)
  with assms show "s \<le> ?n * m" by linarith
qed

lemma shard_capacity_ge:
  "sizeof_shard_hdr P \<le> max_shard_size \<Longrightarrow>
   shard_capacity P max_shard_size = unat max_shard_size - unat (sizeof_shard_hdr P)"
  by (simp add: shard_capacity_def unat_sub)

lemma shard_capacity_wrapped:
  "max_shard_size < sizeof_shard_hdr P \<Longrightarrow>
   shard_capacity P max_shard_size = 2 ^ 64 + unat max_shard_size - unat (sizeof_shard_hdr P)"
  by (simp add: shard_capacity_def unat_sub_if' word_less_nat_alt)

lemma ab_world_facts:
  "files ab_world (c_str ''f'') = Some \<lparr> fdata = ''AB'', fmode = 420 \<rparr>"
  "NUL \<notin> set ''f''" "length (base_name ''f'') < name_capacity"
  by (simp_all add: ab_world_def world_of_def c_str_def NUL_def base_name_def strrchr_def
        name_capacity_def)

lemma shard_path_f:
  "shard_path ''f'' 1 1 = ''f@1.1''" "shard_path ''f'' 2 1 = ''f@1.2''"
  "shard_path ''f'' 2 2 = ''f@2.2''"
  by (simp_all add: shard_path_def make_shard_name_def show_nat.simps c_str_def NUL_def)

lemma upt_1_3: "[1..<Suc 2] = [1, 2]"
  by (simp add: upt_rec)

lemma f_world_facts:
  "files (world_of [(''f'', d)]) (c_str ''f'') = Some \<lparr> fdata = d, fmode = 420 \<rparr>"
  "journal (world_of [(''f'', d)]) = []"
  by (simp_all add: world_of_def c_str_def NUL_def)

lemma writes_at_append:
  "writes_at path pos (xs @ ys) = writes_at path pos xs @ writes_at path pos ys"
  by (induction path pos xs rule: writes_at.induct) simp_all

lemma writes_at_write_events_other:
  "p \<noteq> path \<Longrightarrow> writes_at path pos (write_events p q xs) = []"
proof (induction p q xs rule: write_events.induct)
  case (1 p q xs)
  then show ?case by (subst write_events.simps) simp
qed

lemma writes_at_write_events_before:
  "pos < q \<Longrightarrow> writes_at path pos (write_events p q xs) = []"
proof (induction p q xs rule: write_events.induct)
  case (1 p q xs)
  then show ?case by (subst write_events.simps) simp
qed

lemma writes_at_shard_events:
  assumes ok: "platform_ok P" and nonul: "NUL \<notin> set file_name"
  shows "writes_at (shard_path file_name n j) 0 (shard_events P file_name mode n base c data i)
    = (if i = j then [hdr_bytes P (first_hdr P base c data i), hdr_bytes P (final_hdr P base c data i)]
       else [])"
proof (cases "i = j")
  case True
  then show ?thesis
    using platform_ok_hdr_pos [OF ok]
    by (simp add: shard_events_def writes_at_append writes_at_write_events_before)
next
  case False
  then have "shard_path file_name n i \<noteq> shard_path file_name n j"
    using shard_path_inj [OF nonul] by blast
  then show ?thesis using False
    by (simp add: shard_events_def writes_at_append writes_at_write_events_other)
qed

lemma writes_at_shard_events_list:
  assumes ok: "platform_ok P" and nonul: "NUL \<notin> set file_name"
    and "distinct js" "j \<in> set js"
  shows "writes_at (shard_path file_name n j) 0
           (concat (map (shard_events P file_name mode n base c data) js))
    = [hdr_bytes P (first_hdr P base c data j), hdr_bytes P (final_hdr P base c data j)]"
  using assms(3,4)
proof (induction js)
  case Nil
  then show ?case by simp
next
  case (Cons i js)
  show ?case
  proof (cases "i = j")
    case True
    then have "j \<notin> set js" using Cons.prems by simp
    then have "writes_at (shard_path file_name n j) 0
           (concat (map (shard_events P file_name mode n base c data) js)) = []"
      by (induction js) (simp_all add: writes_at_append writes_at_shard_events [OF ok nonul])
    then show ?thesis using True
      by (simp add: writes_at_append writes_at_shard_events [OF ok nonul])
  next
    case False
    then show ?thesis using Cons
      by (simp add: writes_at_append writes_at_shard_events [OF ok nonul])
  qed
qed

lemma crc32_A: "crc32_update 0 ''A'' = 0xD3D99E8B"
  by code_simp

lemma crc32_B: "crc32_update 0 ''B'' = 0x4AD0CF31"
  by code_simp

lemma ab290_facts:
  "files ab290_world (c_str ''f'') = Some \<lparr> fdata = ab290, fmode = 420 \<rparr>"
  "journal ab290_world = []"
  "length ab290 = 290"
  "split_count 289 ab290 = 2"
  "shard_capacity wire_platform 289 = 1"
  "shard_payload 1 ab290 1 = ''A''"
  "shard_payload 1 ab290 2 = ''B''"
  by (simp_all add: ab290_world_def f_world_facts ab290_def split_count_def shard_capacity_def
        wire_platform_def shard_payload_def)

lemma length_split_hdr_name:
  "length (base_name file_name) < name_capacity \<Longrightarrow>
   length (original_name (first_hdr P (split_hdr P file_name m data) c data i)) = name_capacity \<and>
   length (original_name (final_hdr P (split_hdr P file_name m data) c data i)) = name_capacity"
  by (simp add: first_hdr_def final_hdr_def split_hdr_def strcpy_zeroed_def)

lemma map_emplace_new:
  assumes "sorted_wrt (\<lambda>a b. fst a < fst b) m" "k \<notin> fst ` set m"
  shows "\<exists>m'. map_emplace k v m = (m', True) \<and> sorted_wrt (\<lambda>a b. fst a < fst b) m' \<and>
              set m' = insert (k, v) (set m)"
  using assms
proof (induction m)
  case Nil
  then show ?case by simp
next
  case (Cons e m)
  obtain k' v' where e: "e = (k', v')" by (cases e)
  have ne: "k \<noteq> k'" using Cons.prems(2) e by auto
  show ?case
  proof (cases "k < k'")
    case True
    then have "\<forall>x \<in> set m. k < fst x" using Cons.prems(1) e by auto
    then show ?thesis using True Cons.prems(1) e by auto
  next
    case False
    then have gt: "k' < k" using ne by simp
    from Cons.prems e have "sorted_wrt (\<lambda>a b. fst a < fst b) m" "k \<notin> fst ` set m" by auto
    from Cons.IH [OF this] obtain m' where m': "map_emplace k v m = (m', True)"
      "sorted_wrt (\<lambda>a b. fst a < fst b) m'" "set m' = insert (k, v) (set m)" by blast
    have "\<forall>x \<in> set m'. k' < fst x" using m'(3) gt Cons.prems(1) e by auto
    then show ?thesis using False ne m' e by auto
  qed
qed

lemma strict_by_key_unique:
  assumes "sorted_wrt (\<lambda>a b. fst a < fst b) xs" "sorted_wrt (\<lambda>a b. fst a < fst b) ys"
    "set xs = set ys"
  shows "xs = (ys :: ('a::linorder \<times> 'b) list)"
  using assms
proof (induction xs arbitrary: ys)
  case Nil
  then show ?case by simp
next
  case (Cons x xs)
  then obtain y ys' where ys: "ys = y # ys'" by (cases ys) auto
  have xy: "x = y"
  proof (rule ccontr)
    assume "x \<noteq> y"
    then have "x \<in> set ys'" "y \<in> set xs" using Cons.prems(3) ys by auto
    then have "fst y < fst x" "fst x < fst y" using Cons.prems(1,2) ys by auto
    then show False by simp
  qed
  have "x \<notin> set xs" "y \<notin> set ys'" using Cons.prems(1,2) ys by auto
  then have "set xs = set ys'" using Cons.prems(3) ys xy by auto
  then have "xs = ys'" using Cons.prems(1,2) ys by (intro Cons.IH) auto
  then show ?case using xy ys by simp
qed

lemma join_scan_files:
  assumes ok: "platform_ok P"
    and "\<forall>s \<in> set ts. shard_file P w (sh_path s) (sh_hdr s) (sh_payload s) \<and> consistent (sh_hdr s) master"
    and "distinct (map sh_idx ts)" "sh_idx ` set ts \<inter> fst ` set m = {}"
    and "sorted_wrt (\<lambda>a b. fst a < fst b) m"
  shows "\<exists>m'. join_scan P master (map sh_path ts) m w = Inr m' \<and>
              sorted_wrt (\<lambda>a b. fst a < fst b) m' \<and>
              set m' = set m \<union> (\<lambda>s. (sh_idx s, sh_path s)) ` set ts"
  using assms(2-)
proof (induction ts arbitrary: m)
  case Nil
  then show ?case by simp
next
  case (Cons s ts)
  have sf: "shard_file P w (sh_path s) (sh_hdr s) (sh_payload s)" and co: "consistent (sh_hdr s) master"
    using Cons.prems(1) by auto
  have op: "open_shard P (sh_path s) w
      = Inr (sh_hdr s, \<lparr> fd_path = c_str (sh_path s), fd_pos = unat (sizeof_shard_hdr P) \<rparr>)"
    by (rule open_shard_ok [OF ok sf])
  have "sh_idx s \<notin> fst ` set m" using Cons.prems(3) by auto
  from map_emplace_new [OF Cons.prems(4) this, of "sh_path s"]
  obtain m1 where m1: "map_emplace (sh_idx s) (sh_path s) m = (m1, True)"
    "sorted_wrt (\<lambda>a b. fst a < fst b) m1" "set m1 = insert (sh_idx s, sh_path s) (set m)" by blast
  have "sh_idx ` set ts \<inter> fst ` set m1 = {}"
    using Cons.prems(2,3) m1(3) by auto
  with Cons.prems m1(2)
  have "\<exists>m'. join_scan P master (map sh_path ts) m1 w = Inr m' \<and>
              sorted_wrt (\<lambda>a b. fst a < fst b) m' \<and>
              set m' = set m1 \<union> (\<lambda>s. (sh_idx s, sh_path s)) ` set ts"
    by (intro Cons.IH) auto
  then obtain m' where m': "join_scan P master (map sh_path ts) m1 w = Inr m'"
    "sorted_wrt (\<lambda>a b. fst a < fst b) m'"
    "set m' = set m1 \<union> (\<lambda>s. (sh_idx s, sh_path s)) ` set ts" by blast
  have "join_scan P master (map sh_path (s # ts)) m w = Inr m'"
    using co m1(1) m'(1) by (simp add: op consistent_def sh_idx_def)
  then show ?case using m'(2,3) m1(3) by auto
qed

lemma in_index_order_facts:
  assumes "distinct (map sh_idx ss)"
  shows "sorted_wrt (\<lambda>a b. fst a < fst b) (map (\<lambda>s. (sh_idx s, sh_path s)) (in_index_order ss))"
    and "set (in_index_order ss) = set ss"
    and "distinct (map sh_idx (in_index_order ss))"
proof -
  show s: "set (in_index_order ss) = set ss" by (simp add: in_index_order_def)
  show d: "distinct (map sh_idx (in_index_order ss))"
    using assms by (simp add: distinct_map in_index_order_def)
  have "sorted (map sh_idx (in_index_order ss))" by (simp add: in_index_order_def)
  then have "sorted_wrt (<) (map sh_idx (in_index_order ss))"
    using d by (simp add: strict_sorted_iff)
  then show "sorted_wrt (\<lambda>a b. fst a < fst b) (map (\<lambda>s. (sh_idx s, sh_path s)) (in_index_order ss))"
    by (simp add: sorted_wrt_map)
qed

lemma shard_file_frame:
  "files w' (c_str path) = files w (c_str path) \<Longrightarrow>
   shard_file P w' path h d = shard_file P w path h d"
  by (simp add: shard_file_def)

lemma files_append_payload_other:
  "p \<noteq> dest \<Longrightarrow> files (append_payload dest d w) p = files w p"
  by (simp add: append_payload_def split: option.splits)

lemma files_append_payload_same:
  "files w dest = Some x \<Longrightarrow>
   files (append_payload dest d w) dest = Some (x\<lparr> fdata := fdata x @ d \<rparr>)"
  by (simp add: append_payload_def)

lemma emit_result_dest:
  "files w dest = Some x \<Longrightarrow> \<exists>x'. files (snd (emit_result P dest ts tot w)) dest = Some x'"
proof (induction ts arbitrary: tot w x)
  case Nil
  then show ?case by simp
next
  case (Cons s ts)
  have "files (append_payload dest (sh_payload s) w) dest = Some (x\<lparr> fdata := fdata x @ sh_payload s \<rparr>)"
    using Cons.prems by (rule files_append_payload_same)
  then show ?case using Cons.IH by (cases "intact P s") auto
qed

lemma emit_result_other:
  "p \<noteq> dest \<Longrightarrow> files (snd (emit_result P dest ts tot w)) p = files w p"
  by (induction ts arbitrary: tot w) (simp_all add: files_append_payload_other)

lemma emit_result_intact:
  assumes ok: "platform_ok P" and "\<forall>s \<in> set ts. intact P s"
  shows "fst (emit_result P dest ts tot w) = Inr (update_crc P tot (concat (map sh_payload ts)))"
  using assms(2)
proof (induction ts arbitrary: tot w)
  case Nil
  then show ?case by (simp add: platform_ok_crc0 [OF ok])
next
  case (Cons s ts)
  then show ?case by (simp add: platform_ok_crc [OF ok])
qed

lemma emit_result_contents:
  assumes "\<forall>s \<in> set ts. intact P s" "files w dest = Some x"
  shows "contents (snd (emit_result P dest ts tot w)) dest
     = Some (fdata x @ concat (map sh_payload ts))"
  using assms
proof (induction ts arbitrary: tot w x)
  case Nil
  then show ?case by (simp add: contents_def)
next
  case (Cons s ts)
  have "files (append_payload dest (sh_payload s) w) dest = Some (x\<lparr> fdata := fdata x @ sh_payload s \<rparr>)"
    using Cons.prems(2) by (rule files_append_payload_same)
  from Cons.IH [OF _ this] Cons.prems(1) show ?case by simp
qed

lemma emit_result_damaged:
  assumes "\<forall>t \<in> set ts1. intact P t" "\<not> intact P s"
  shows "fst (emit_result P dest (ts1 @ s # ts2) tot w) = Inl (Is_damaged (sh_path s))"
  using assms by (induction ts1 arbitrary: tot w) simp_all

lemma append_shard_payload:
  assumes ok: "platform_ok P"
    and sf: "shard_file P w (sh_path s) (sh_hdr s) (sh_payload s)" and ne: "c_str (sh_path s) \<noteq> dest"
    and x: "files w dest = Some x"
  shows "append_shard P \<lparr> fd_path = c_str (sh_path s), fd_pos = unat (sizeof_shard_hdr P) \<rparr>
              \<lparr> fd_path = dest, fd_pos = length (fdata x) \<rparr> tot 0 w
      = Some (Inr (update_crc P tot (sh_payload s), update_crc P 0 (sh_payload s),
                   \<lparr> fd_path = dest, fd_pos = length (fdata x) + length (sh_payload s) \<rparr>),
              append_payload dest (sh_payload s) w)"
proof -
  let ?hs = "unat (sizeof_shard_hdr P)"
  let ?d = "sh_payload s"
  from sf obtain xi where xi: "files w (c_str (sh_path s)) = Some xi"
    "fdata xi = hdr_bytes P (sh_hdr s) @ ?d"
    by (auto simp: shard_file_def)
  have hl: "length (hdr_bytes P (sh_hdr s)) = ?hs" by (rule platform_ok_len [OF ok])
  have le: "?hs \<le> length (fdata xi)" by (simp add: xi(2) hl)
  have dr: "drop ?hs (fdata xi) = ?d" by (simp add: xi(2) hl)
  have ln: "length (fdata xi) - ?hs = length ?d" by (simp add: xi(2) hl)
  have w'eq: "append_payload dest ?d w = w\<lparr> files := (files w)(dest \<mapsto> x\<lparr> fdata := fdata x @ ?d \<rparr>),
              journal := journal w @ write_events dest (length (fdata x)) ?d \<rparr>"
    by (simp add: append_payload_def x)
  show ?thesis
    unfolding w'eq
    using append_shard_appends [OF ok xi(1) x ne le, of tot 0]
    unfolding dr ln .
qed


lemma join_emit_step:
  assumes ok: "platform_ok P"
    and sf: "shard_file P w (sh_path s) (sh_hdr s) (sh_payload s)" and ne: "c_str (sh_path s) \<noteq> dest"
    and x: "files w dest = Some x"
  shows "join_emit P ((sh_idx s, sh_path s) # m) \<lparr> fd_path = dest, fd_pos = length (fdata x) \<rparr> tot w
      = (if intact P s
         then join_emit P m \<lparr> fd_path = dest, fd_pos = length (fdata x) + length (sh_payload s) \<rparr>
                (update_crc P tot (sh_payload s)) (append_payload dest (sh_payload s) w)
         else Some (Inl (Is_damaged (sh_path s)), append_payload dest (sh_payload s) w))"
proof -
  have op: "open_shard P (sh_path s) w
      = Inr (sh_hdr s, \<lparr> fd_path = c_str (sh_path s), fd_pos = unat (sizeof_shard_hdr P) \<rparr>)"
    by (rule open_shard_ok [OF ok sf])
  show ?thesis
    unfolding join_emit.simps op sum.case prod.case append_shard_payload [OF ok sf ne x]
      Option.bind.simps intact_def
    by simp
qed

lemma join_emit_runs:
  assumes ok: "platform_ok P"
    and "\<forall>s \<in> set ts. shard_file P w (sh_path s) (sh_hdr s) (sh_payload s) \<and> c_str (sh_path s) \<noteq> dest"
    and "files w dest = Some x"
  shows "join_emit P (map (\<lambda>s. (sh_idx s, sh_path s)) ts)
           \<lparr> fd_path = dest, fd_pos = length (fdata x) \<rparr> tot w
         = Some (case fst (emit_result P dest ts tot w) of
                   Inl e \<Rightarrow> Inl e
                 | Inr t \<Rightarrow> Inr (t, \<lparr> fd_path = dest,
                                     fd_pos = file_size (snd (emit_result P dest ts tot w)) dest \<rparr>),
                 snd (emit_result P dest ts tot w))"
  using assms(2-)
proof (induction ts arbitrary: tot w x)
  case Nil
  then show ?case by (simp add: file_size_def contents_def)
next
  case (Cons s ts)
  let ?d = "sh_payload s"
  have sf: "shard_file P w (sh_path s) (sh_hdr s) ?d" and ne: "c_str (sh_path s) \<noteq> dest"
    using Cons.prems(1) by auto
  define w' where "w' = append_payload dest ?d w"
  define x' where "x' = x\<lparr> fdata := fdata x @ ?d \<rparr>"
  have x': "files w' dest = Some x'"
    unfolding w'_def x'_def using Cons.prems(2) by (rule files_append_payload_same)
  have lx: "length (fdata x) + length ?d = length (fdata x')" by (simp add: x'_def)
  note step = join_emit_step [OF ok sf ne Cons.prems(2), of "map (\<lambda>s. (sh_idx s, sh_path s)) ts" tot,
      folded w'_def, unfolded lx]
  show ?case
  proof (cases "intact P s")
    case False
    have A: "join_emit P (map (\<lambda>s. (sh_idx s, sh_path s)) (s # ts))
           \<lparr> fd_path = dest, fd_pos = length (fdata x) \<rparr> tot w
        = Some (Inl (Is_damaged (sh_path s)), w')"
      unfolding list.map step using False by simp
    have B: "emit_result P dest (s # ts) tot w = (Inl (Is_damaged (sh_path s)), w')"
      using False by (simp add: w'_def)
    show ?thesis unfolding A B by simp
  next
    case True
    have pre: "\<forall>t \<in> set ts. shard_file P w' (sh_path t) (sh_hdr t) (sh_payload t) \<and> c_str (sh_path t) \<noteq> dest"
    proof
      fix t assume t: "t \<in> set ts"
      then have a: "shard_file P w (sh_path t) (sh_hdr t) (sh_payload t)" and b: "c_str (sh_path t) \<noteq> dest"
        using Cons.prems(1) by auto
      have "files w' (c_str (sh_path t)) = files w (c_str (sh_path t))"
        unfolding w'_def using b by (rule files_append_payload_other)
      then have "shard_file P w' (sh_path t) (sh_hdr t) (sh_payload t)
          = shard_file P w (sh_path t) (sh_hdr t) (sh_payload t)"
        by (rule shard_file_frame)
      then show "shard_file P w' (sh_path t) (sh_hdr t) (sh_payload t) \<and> c_str (sh_path t) \<noteq> dest"
        using a b by simp
    qed
    have A: "join_emit P (map (\<lambda>s. (sh_idx s, sh_path s)) (s # ts))
           \<lparr> fd_path = dest, fd_pos = length (fdata x) \<rparr> tot w
        = join_emit P (map (\<lambda>s. (sh_idx s, sh_path s)) ts)
           \<lparr> fd_path = dest, fd_pos = length (fdata x') \<rparr> (update_crc P tot ?d) w'"
      unfolding list.map step using True by simp
    have B: "emit_result P dest (s # ts) tot w = emit_result P dest ts (update_crc P tot ?d) w'"
      using True by (simp add: w'_def)
    show ?thesis
      unfolding A B by (rule Cons.IH [OF pre x'])
  qed
qed


lemma seek_cur:
  "files w (fd_path f) = Some x \<Longrightarrow> seek f 0 SEEK_CUR w = Inr (of_nat (fd_pos f), f)"
  by (simp add: seek_def)

lemma join_runs:
  assumes ok: "platform_ok P" and disk: "shards_on_disk P w ss"
  shows "join P (map sh_path ss) w = Some (join_result P w ss)"
proof -
  from disk obtain s0 rest where ss: "ss = s0 # rest"
    by (cases ss) (auto simp: shards_on_disk_def)
  define master where "master = sh_hdr s0"
  define dest where "dest = dest_path ss"
  have dest: "dest = c_str (original_name master)"
    by (simp add: dest_def dest_path_def ss master_def)
  have sf: "\<And>s. s \<in> set ss \<Longrightarrow> shard_file P w (sh_path s) (sh_hdr s) (sh_payload s)"
    and co: "\<And>s. s \<in> set ss \<Longrightarrow> consistent (sh_hdr s) master"
    and ln: "unat (shard_count master) = length ss"
    and di: "distinct (map sh_idx ss)"
    and al: "\<And>s. s \<in> set ss \<Longrightarrow> c_str (sh_path s) \<noteq> dest"
    using disk unfolding shards_on_disk_def dest master_def ss by (auto simp del: distinct.simps)
  have op0: "open_shard P (sh_path s0) w
      = Inr (master, \<lparr> fd_path = c_str (sh_path s0), fd_pos = unat (sizeof_shard_hdr P) \<rparr>)"
    unfolding master_def by (rule open_shard_ok [OF ok sf]) (simp add: ss)
  let ?E = "map (\<lambda>s. (sh_idx s, sh_path s)) (in_index_order ss)"
  have scan: "join_scan P master (map sh_path rest) [(shard_idx master, sh_path s0)] w = Inr ?E"
  proof -
    have "\<exists>m'. join_scan P master (map sh_path rest) [(sh_idx s0, sh_path s0)] w = Inr m' \<and>
              sorted_wrt (\<lambda>a b. fst a < fst b) m' \<and>
              set m' = set [(sh_idx s0, sh_path s0)] \<union> (\<lambda>s. (sh_idx s, sh_path s)) ` set rest"
      using sf co di unfolding ss
      by (intro join_scan_files [OF ok]) auto
    then obtain m' where m': "join_scan P master (map sh_path rest) [(sh_idx s0, sh_path s0)] w = Inr m'"
      "sorted_wrt (\<lambda>a b. fst a < fst b) m'"
      "set m' = (\<lambda>s. (sh_idx s, sh_path s)) ` set ss"
      unfolding ss by auto
    have "set ?E = (\<lambda>s. (sh_idx s, sh_path s)) ` set ss"
      by (simp add: in_index_order_facts(2) [OF di])
    then have "m' = ?E"
      using m'(2,3) in_index_order_facts(1) [OF di]
      by (intro strict_by_key_unique) simp_all
    then show ?thesis using m'(1) by (simp add: sh_idx_def master_def)
  qed
  define m where "m = (case files w dest of None \<Rightarrow> 511 | Some x \<Rightarrow> fmode x)"
  define w1 where "w1 = snd (open_rw (original_name master) 511 w)"
  have orw: "open_rw (original_name master) 511 w = (Inr \<lparr> fd_path = dest, fd_pos = 0 \<rparr>, w1)"
    by (simp add: w1_def open_rw_def Let_def dest)
  have f1: "files w1 dest = Some \<lparr> fdata = [], fmode = m \<rparr>"
    by (simp add: w1_def open_rw_def Let_def dest m_def)
  have f1o: "\<And>p. p \<noteq> dest \<Longrightarrow> files w1 p = files w p"
    by (simp add: w1_def open_rw_def Let_def dest)
  have pre: "\<forall>s \<in> set (in_index_order ss).
      shard_file P w1 (sh_path s) (sh_hdr s) (sh_payload s) \<and> c_str (sh_path s) \<noteq> dest"
  proof
    fix s assume "s \<in> set (in_index_order ss)"
    then have s: "s \<in> set ss" by (simp add: in_index_order_facts(2) [OF di])
    have "files w1 (c_str (sh_path s)) = files w (c_str (sh_path s))"
      using al [OF s] by (rule f1o)
    then have "shard_file P w1 (sh_path s) (sh_hdr s) (sh_payload s)
        = shard_file P w (sh_path s) (sh_hdr s) (sh_payload s)"
      by (rule shard_file_frame)
    then show "shard_file P w1 (sh_path s) (sh_hdr s) (sh_payload s) \<and> c_str (sh_path s) \<noteq> dest"
      using sf [OF s] al [OF s] by simp
  qed
  define r where "r = emit_result P dest (in_index_order ss) 0 w1"
  have emit: "join_emit P ?E \<lparr> fd_path = dest, fd_pos = 0 \<rparr> 0 w1
      = Some (case fst r of Inl e \<Rightarrow> Inl e
              | Inr t \<Rightarrow> Inr (t, \<lparr> fd_path = dest, fd_pos = file_size (snd r) dest \<rparr>), snd r)"
    unfolding r_def using join_emit_runs [OF ok pre f1, of 0] by simp
  from emit_result_dest [OF f1, of P "in_index_order ss" 0]
  obtain x' where x': "files (snd r) dest = Some x'" unfolding r_def by blast
  have sk: "seek \<lparr> fd_path = dest, fd_pos = file_size (snd r) dest \<rparr> 0 SEEK_CUR (snd r)
      = Inr (of_nat (file_size (snd r) dest), \<lparr> fd_path = dest, fd_pos = file_size (snd r) dest \<rparr>)"
    using seek_cur [of "snd r" "\<lparr> fd_path = dest, fd_pos = file_size (snd r) dest \<rparr>" x'] x'
    by simp
  have jr: "join_result P w ss =
     (case fst r of
           Inl e \<Rightarrow> (Inl e, snd r)
         | Inr total_crc \<Rightarrow>
             (if of_nat (file_size (snd r) dest) \<noteq> original_size master \<or>
                 total_crc \<noteq> original_crc master
              then Inl Did_not_reconstruct else Inr (), snd r))"
    unfolding join_result_def Let_def r_def dest_def w1_def master_def ss list.sel by (rule refl)
  have nm: "map sh_path ss = sh_path s0 # map sh_path rest" by (simp add: ss)
  have lenck: "length (sh_path s0 # map sh_path rest) = unat (shard_count master)"
    using ln by (simp add: ss)
  show ?thesis
  proof (cases "fst r")
    case (Inl e)
    then show ?thesis
      unfolding jr nm using lenck
      by (simp add: join_def op0 scan orw emit del: join_emit.simps)
  next
    case (Inr t)
    then show ?thesis
      unfolding jr nm using lenck
      by (simp add: join_def op0 scan orw emit sk del: join_emit.simps)
  qed
qed


lemma open_rw_dest:
  "files (snd (open_rw path mode w)) (c_str path)
     = Some \<lparr> fdata = [], fmode = (case files w (c_str path) of None \<Rightarrow> mode | Some x \<Rightarrow> fmode x) \<rparr>"
  by (simp add: open_rw_def Let_def)







lemma crc32_AB: "crc32_update 0 ''AB'' = 0x30694C07"
  by code_simp

lemma pair_paths:
  "map sh_path pair_shards = [''r@1.2'', ''r@2.2'']"
  "map sh_path (rev pair_shards) = [''r@2.2'', ''r@1.2'']"
  by (simp_all add: pair_shards_def sh_path_def)

lemma pair_order: "in_index_order pair_shards = pair_shards"
  by (simp add: in_index_order_def pair_shards_def sh_idx_def sh_hdr_def pair_hdr_def)

lemma pair_payload: "joined_payload pair_shards = ''AB''"
  unfolding joined_payload_def pair_order by (simp add: pair_shards_def sh_payload_def)


lemma pair_on_disk: "shards_on_disk wire_platform pair_world pair_shards"
  unfolding shards_on_disk_def
  apply (intro conjI)
  apply (simp add: pair_shards_def)
  apply (simp add: pair_shards_def shard_file_def pair_world_def world_of_def sh_path_def sh_hdr_def
      sh_payload_def shard_bytes_def c_str_def NUL_def pair_hdr_def strcpy_zeroed_def name_capacity_def
      wire_platform_def length_packed_hdr_bytes)
  apply (simp add: pair_shards_def consistent_def sh_hdr_def pair_hdr_def strcmp_eq_def)
  apply (simp add: pair_shards_def sh_hdr_def pair_hdr_def)
  apply (simp add: pair_shards_def sh_idx_def sh_hdr_def pair_hdr_def)
  apply (simp add: pair_shards_def sh_hdr_def sh_path_def pair_hdr_def strcpy_zeroed_def
        name_capacity_def c_str_def NUL_def)
  done

lemma pair_valid: "valid_shard_set wire_platform pair_world pair_shards"
  unfolding valid_shard_set_def pair_payload
  apply (intro conjI)
  apply (rule pair_on_disk)
  apply (simp add: pair_shards_def intact_def sh_hdr_def sh_payload_def pair_hdr_def wire_platform_def)
  apply (simp add: pair_shards_def sh_hdr_def pair_hdr_def wire_platform_def)
  done


text \<open>The reference CRC-32 tells any change of a single byte: each of its steps is injective.\<close>

lemma poly_bit_31: "bit (0xEDB88320 :: 32 word) 31"
  by code_simp

lemma crc32_bit_top: "bit (crc32_bit c) 31 = bit c 0"
  by (simp add: crc32_bit_def bit_xor_iff bit_drop_bit_eq poly_bit_31 bit_word_iff_drop_bit_and
      del: bit_0)

lemma xor_cancel_32:
  assumes "(a :: 32 word) XOR x = a XOR y"
  shows "x = y"
proof -
  have "a XOR (a XOR x) = a XOR (a XOR y)" by (simp only: assms)
  then show ?thesis by (simp add: xor.assoc [symmetric])
qed

lemma crc32_bit_inj:
  assumes "crc32_bit c = crc32_bit d"
  shows "c = d"
proof -
  have b0: "bit c 0 = bit d 0"
    using crc32_bit_top [of c] crc32_bit_top [of d] assms by simp
  have dr: "drop_bit 1 c = drop_bit 1 d"
  proof (cases "bit d 0")
    case True
    then have "drop_bit 1 c XOR 0xEDB88320 = drop_bit 1 d XOR 0xEDB88320"
      using assms b0 by (simp add: crc32_bit_def del: bit_0)
    then have "0xEDB88320 XOR drop_bit 1 c = 0xEDB88320 XOR drop_bit 1 d"
      by (simp only: xor.commute [of "0xEDB88320 :: 32 word"])
    then show ?thesis by (rule xor_cancel_32)
  next
    case False
    then show ?thesis using assms b0 by (simp add: crc32_bit_def del: bit_0)
  qed
  show ?thesis
  proof (rule bit_eqI)
    fix n
    show "bit c n = bit d n"
    proof (cases n)
      case 0
      then show ?thesis using b0 by simp
    next
      case (Suc m)
      have "bit (drop_bit 1 c) m = bit (drop_bit 1 d) m" by (simp only: dr)
      then show ?thesis by (simp add: bit_drop_bit_eq Suc)
    qed
  qed
qed

lemma crc32_bit_pow_inj: "(crc32_bit ^^ n) c = (crc32_bit ^^ n) d \<Longrightarrow> c = d"
  by (induction n) (auto dest: crc32_bit_inj)

lemma of_char_32_inj: "(of_char a :: 32 word) = of_char b \<Longrightarrow> a = b"
proof -
  assume "(of_char a :: 32 word) = of_char b"
  then have "unat (of_char a :: 32 word) = unat (of_char b :: 32 word)" by simp
  moreover have "unat (of_char x :: 32 word) = of_char x" for x
  proof -
    have "(of_char x :: nat) < 4294967296"
      by (rule less_trans [OF nat_of_char_less_256]) simp
    then have m: "(of_char x :: nat) mod 4294967296 = of_char x" by (rule mod_less)
    have "(of_char x :: 32 word) = of_nat (of_char x)" by (simp add: of_nat_of_char)
    then have "unat (of_char x :: 32 word) = unat (of_nat (of_char x) :: 32 word)" by (simp only:)
    also have "\<dots> = of_char x" by (simp add: unat_of_nat m)
    finally show ?thesis .
  qed
  ultimately have "(of_char a :: nat) = of_char b" by simp
  then show "a = b" by simp
qed

lemma crc32_byte_inj_state: "crc32_byte c b = crc32_byte d b \<Longrightarrow> c = d"
  unfolding crc32_byte_def
  by (drule crc32_bit_pow_inj) (simp only: xor.commute [of _ "of_char b"], rule xor_cancel_32)

lemma crc32_byte_inj_byte: "crc32_byte c a = crc32_byte c b \<Longrightarrow> a = b"
  unfolding crc32_byte_def
  by (drule crc32_bit_pow_inj) (drule xor_cancel_32, rule of_char_32_inj)

lemma foldl_crc32_byte_inj: "foldl crc32_byte c xs = foldl crc32_byte d xs \<Longrightarrow> c = d"
  by (induction xs arbitrary: c d) (auto dest: crc32_byte_inj_state)

lemma crc32_detects_single_byte: "detects_single_byte wire_platform"
  unfolding detects_single_byte_def
proof (intro allI impI)
  fix c :: "32 word" and xs :: "byte list" and i b
  assume a: "i < length xs \<and> b \<noteq> xs ! i"
  then have x: "xs = take i xs @ xs ! i # drop (Suc i) xs" by (simp add: id_take_nth_drop)
  have u: "xs[i := b] = take i xs @ b # drop (Suc i) xs" using a by (simp add: upd_conv_take_nth_drop)
  show "update_crc wire_platform c (xs[i := b]) \<noteq> update_crc wire_platform c xs"
  proof
    assume "update_crc wire_platform c (xs[i := b]) = update_crc wire_platform c xs"
    then have "foldl crc32_byte (NOT c) (take i xs @ b # drop (Suc i) xs)
             = foldl crc32_byte (NOT c) (take i xs @ xs ! i # drop (Suc i) xs)"
      unfolding u using x by (simp add: wire_platform_def crc32_update_def)
    then have "crc32_byte (foldl crc32_byte (NOT c) (take i xs)) b
             = crc32_byte (foldl crc32_byte (NOT c) (take i xs)) (xs ! i)"
      by (simp add: foldl_crc32_byte_inj)
    then have "b = xs ! i" by (rule crc32_byte_inj_byte)
    with a show False by simp
  qed
qed


text \<open>Shards of a set that is on disk lie in different files.\<close>

lemma shards_on_disk_paths:
  assumes ok: "platform_ok P" and disk: "shards_on_disk P w ss"
    and t: "t \<in> set ss" and s: "s \<in> set ss" and eq: "c_str (sh_path t) = c_str (sh_path s)"
  shows "t = s"
proof -
  from disk t s have ft: "shard_file P w (sh_path t) (sh_hdr t) (sh_payload t)"
    and fs: "shard_file P w (sh_path s) (sh_hdr s) (sh_payload s)"
    and di: "distinct (map sh_idx ss)"
    by (simp_all add: shards_on_disk_def)
  from ft fs eq have "hdr_bytes P (sh_hdr t) @ sh_payload t = hdr_bytes P (sh_hdr s) @ sh_payload s"
    by (auto simp: shard_file_def)
  moreover have "length (hdr_bytes P (sh_hdr t)) = length (hdr_bytes P (sh_hdr s))"
    by (simp add: platform_ok_len [OF ok])
  ultimately have "hdr_bytes P (sh_hdr t) = hdr_bytes P (sh_hdr s)" by simp
  then have "bytes_hdr P (hdr_bytes P (sh_hdr t)) = bytes_hdr P (hdr_bytes P (sh_hdr s))"
    by (simp only:)
  moreover have "length (original_name (sh_hdr t)) = name_capacity"
    "length (original_name (sh_hdr s)) = name_capacity"
    using ft fs by (simp_all add: shard_file_def)
  ultimately have "sh_hdr t = sh_hdr s" by (simp add: platform_ok_dec [OF ok])
  then have "sh_idx t = sh_idx s" by (simp add: sh_idx_def)
  moreover from di have "inj_on sh_idx (set ss)" by (simp add: distinct_map)
  ultimately show ?thesis using t s by (simp add: inj_on_def)
qed

lemma damaged_sel:
  "sh_path (damaged s i b) = sh_path s" "sh_hdr (damaged s i b) = sh_hdr s"
  "sh_idx (damaged s i b) = sh_idx s" "sh_payload (damaged s i b) = (sh_payload s)[i := b]"
  by (simp_all add: damaged_def sh_path_def sh_hdr_def sh_idx_def sh_payload_def)

lemma files_with_contents_other:
  "p \<noteq> path \<Longrightarrow> files (with_contents w path d) p = files w p"
  by (simp add: with_contents_def)

lemma files_with_contents_same:
  "map_option fdata (files (with_contents w path d) path) = Some d"
  by (simp add: with_contents_def)

lemma join_damaged:
  assumes ok: "platform_ok P" and det: "detects_single_byte P"
    and valid: "valid_shard_set P w ss"
    and s: "s \<in> set ss" and i: "i < length (sh_payload s)" and b: "b \<noteq> sh_payload s ! i"
  shows "\<exists>w''. join P (map sh_path ss)
             (with_contents w (c_str (sh_path s)) (shard_bytes P (damaged s i b)))
           = Some (Inl (Is_damaged (sh_path s)), w'')"
proof -
  define s' where "s' = damaged s i b"
  define w' where "w' = with_contents w (c_str (sh_path s)) (shard_bytes P s')"
  define f where "f = (\<lambda>t. if t = s then s' else t)"
  define ss' where "ss' = map f ss"
  from valid have disk: "shards_on_disk P w ss" and int: "\<And>t. t \<in> set ss \<Longrightarrow> intact P t"
    by (simp_all add: valid_shard_set_def)
  have sel: "sh_path (f t) = sh_path t" "sh_hdr (f t) = sh_hdr t" "sh_idx (f t) = sh_idx t" for t
    by (simp_all add: f_def s'_def damaged_sel)
  have paths: "map sh_path ss' = map sh_path ss" and idxs: "map sh_idx ss' = map sh_idx ss"
    by (simp_all add: ss'_def sel comp_def)
  have sf: "shard_file P w' (sh_path (f t)) (sh_hdr (f t)) (sh_payload (f t))" if t: "t \<in> set ss" for t
  proof (cases "t = s")
    case True
    from disk s have "shard_file P w (sh_path s) (sh_hdr s) (sh_payload s)"
      by (simp add: shards_on_disk_def)
    then show ?thesis
      by (simp add: True f_def s'_def w'_def shard_file_def files_with_contents_same
            shard_bytes_def damaged_sel)
  next
    case False
    then have "c_str (sh_path t) \<noteq> c_str (sh_path s)"
      using shards_on_disk_paths [OF ok disk t s] by blast
    then have "files w' (c_str (sh_path t)) = files w (c_str (sh_path t))"
      by (simp add: w'_def files_with_contents_other)
    then have "shard_file P w' (sh_path t) (sh_hdr t) (sh_payload t)
             = shard_file P w (sh_path t) (sh_hdr t) (sh_payload t)"
      by (rule shard_file_frame)
    then show ?thesis using disk t False by (simp add: f_def shards_on_disk_def)
  qed
  have disk': "shards_on_disk P w' ss'"
    unfolding shards_on_disk_def
  proof (intro conjI)
    show "ss' \<noteq> []" using s by (auto simp: ss'_def)
    show "\<forall>s\<in>set ss'. shard_file P w' (sh_path s) (sh_hdr s) (sh_payload s)"
      using sf by (simp add: ss'_def)
    show "\<forall>s\<in>set ss'. \<forall>t\<in>set ss'. consistent (sh_hdr s) (sh_hdr t)"
      using disk by (simp add: ss'_def sel shards_on_disk_def)
    show "\<forall>s\<in>set ss'. unat (shard_count (sh_hdr s)) = length ss'"
      using disk by (simp add: ss'_def sel shards_on_disk_def)
    show "distinct (map sh_idx ss')"
      using disk by (simp add: idxs shards_on_disk_def)
    show "\<forall>s\<in>set ss'. \<forall>t\<in>set ss'. c_str (original_name (sh_hdr s)) \<noteq> c_str (sh_path t)"
      using disk by (simp add: ss'_def sel shards_on_disk_def)
  qed
  have j: "join P (map sh_path ss) w' = Some (join_result P w' ss')"
    using join_runs [OF ok disk'] by (simp add: paths)
  have "s' \<in> set (in_index_order ss')"
    using s by (auto simp: in_index_order_def ss'_def f_def)
  then obtain ts1 ts2 where sp: "in_index_order ss' = ts1 @ s' # ts2" and nin: "s' \<notin> set ts1"
    by (auto dest: split_list_first)
  have before: "\<forall>t \<in> set ts1. intact P t"
  proof
    fix t assume t: "t \<in> set ts1"
    then have "t \<in> set (in_index_order ss')" by (simp add: sp)
    then have "t \<in> f ` set ss" by (simp add: in_index_order_def ss'_def)
    then obtain u where u: "u \<in> set ss" "t = f u" by blast
    with t nin have "u \<noteq> s" by (auto simp: f_def)
    with u have "t = u" by (simp add: f_def)
    with u int show "intact P t" by simp
  qed
  have "shard_crc (sh_hdr s) = update_crc P 0 (sh_payload s)"
    using int [OF s] by (simp add: intact_def)
  moreover have "update_crc P 0 ((sh_payload s)[i := b]) \<noteq> update_crc P 0 (sh_payload s)"
    using det i b by (simp add: detects_single_byte_def)
  ultimately have bad: "\<not> intact P s'"
    by (simp add: intact_def s'_def damaged_sel)
  have "fst (emit_result P dest (in_index_order ss') tot v) = Inl (Is_damaged (sh_path s))" for dest tot v
    unfolding sp using emit_result_damaged [OF before bad] by (simp add: s'_def damaged_sel)
  then have "fst (join_result P w' ss') = Inl (Is_damaged (sh_path s))"
    by (simp add: join_result_def Let_def)
  then show ?thesis
    unfolding s'_def [symmetric] w'_def [symmetric] j
    by (cases "join_result P w' ss'") simp
qed


text \<open>What \<open>join\<close> returns when every shard is intact: the totals decide.\<close>

lemma join_result_intact:
  assumes ok: "platform_ok P" and int: "\<forall>s \<in> set ss. intact P s"
  shows "fst (join_result P w ss) =
           (if of_nat (length (joined_payload ss)) \<noteq> original_size (sh_hdr (hd ss)) \<or>
               update_crc P 0 (joined_payload ss) \<noteq> original_crc (sh_hdr (hd ss))
            then Inl Did_not_reconstruct else Inr ())"
    and "contents (snd (join_result P w ss)) (dest_path ss) = Some (joined_payload ss)"
proof -
  define master where "master = sh_hdr (hd ss)"
  define w1 where "w1 = snd (open_rw (original_name master) 511 w)"
  define r where "r = emit_result P (dest_path ss) (in_index_order ss) 0 w1"
  have int': "\<forall>s \<in> set (in_index_order ss). intact P s"
    using int by (simp add: in_index_order_def)
  have f1: "files w1 (dest_path ss)
     = Some \<lparr> fdata = [], fmode = (case files w (dest_path ss) of None \<Rightarrow> 511 | Some x \<Rightarrow> fmode x) \<rparr>"
    unfolding w1_def dest_path_def master_def by (rule open_rw_dest)
  have r1: "fst r = Inr (update_crc P 0 (joined_payload ss))"
    unfolding r_def joined_payload_def by (rule emit_result_intact [OF ok int'])
  have r2: "contents (snd r) (dest_path ss) = Some (joined_payload ss)"
    unfolding r_def joined_payload_def
    using emit_result_contents [OF int' f1, of 0] by simp
  have sz: "file_size (snd r) (dest_path ss) = length (joined_payload ss)"
    by (simp add: file_size_def r2)
  have jr: "join_result P w ss =
     (if of_nat (length (joined_payload ss)) \<noteq> original_size master \<or>
         update_crc P 0 (joined_payload ss) \<noteq> original_crc master
      then Inl Did_not_reconstruct else Inr (), snd r)"
    unfolding join_result_def Let_def master_def [symmetric] w1_def [symmetric] r_def [symmetric]
    by (simp add: r1 sz)
  show "fst (join_result P w ss) =
           (if of_nat (length (joined_payload ss)) \<noteq> original_size (sh_hdr (hd ss)) \<or>
               update_crc P 0 (joined_payload ss) \<noteq> original_crc (sh_hdr (hd ss))
            then Inl Did_not_reconstruct else Inr ())"
    unfolding jr master_def by simp
  show "contents (snd (join_result P w ss)) (dest_path ss) = Some (joined_payload ss)"
    unfolding jr by (simp add: r2)
qed


text \<open>The loops of \<open>split\<close> fail with an error of the system only.\<close>

lemma write_exactly_error:
  "write_exactly f buffer w = (Inl e, w') \<Longrightarrow> e = System_error"
proof (induction f buffer w rule: write_exactly.induct)
  case (1 f buffer w)
  show ?case
  proof (cases "length buffer = 0")
    case True
    then show ?thesis using 1(2) by (subst (asm) write_exactly.simps) simp
  next
    case False
    show ?thesis
    proof (cases "files w (fd_path f)")
      case None
      then show ?thesis using 1(2) False
        by (subst (asm) write_exactly.simps) (simp add: sys_write_def)
    next
      case (Some x)
      obtain n f' w1 where sw: "sys_write f buffer w = (Inr (n, f'), w1)"
        using Some by (simp add: sys_write_def Let_def)
      have "write_exactly f buffer w = write_exactly f' (drop n buffer) w1"
        using False by (subst write_exactly.simps) (simp add: sw)
      then have "write_exactly f' (drop n buffer) w1 = (Inl e, w')" using 1(2) by simp
      then show ?thesis by (rule 1(1) [OF False sw [symmetric] refl refl])
    qed
  qed
qed

lemma copy_shard_error:
  assumes "copy_shard P inp out sz crc w = Some y"
  shows "\<forall>e w'. y = (Inl e, w') \<longrightarrow> e = System_error"
  by (rule copy_shard.raw_induct
        [where Pa = "\<lambda>_ y. \<forall>e w'. y = (Inl e, w') \<longrightarrow> e = System_error", OF _ assms])
     (auto simp: read_at_most_def Let_def dest: write_exactly_error
        split: if_splits option.splits sum.splits prod.splits)

lemma seek_error: "seek f offset wh w = Inl e \<Longrightarrow> e = System_error"
  by (auto simp: seek_def Let_def split: option.splits if_splits)

lemma split_loop_error:
  assumes "split_loop P file_name max_shard_size mode count idx inp in_size hdr w = Some y"
  shows "\<forall>e w'. y = (Inl e, w') \<longrightarrow> e = System_error"
  by (rule split_loop.raw_induct
        [where Pa = "\<lambda>_ y. \<forall>e w'. y = (Inl e, w') \<longrightarrow> e = System_error", OF _ assms])
     (auto simp: open_rw_def Let_def dest: write_exactly_error copy_shard_error seek_error
        split: if_splits option.splits sum.splits prod.splits Option.bind_splits)

text \<open>So a name that fits never makes \<open>split\<close> fail with the name error.\<close>

lemma split_status_name_fits:
  assumes src: "files w (c_str file_name) = Some xs" and M: "max_shard_size \<noteq> 0"
    and nm: "length (base_name file_name) < name_capacity"
  shows "split_status P file_name max_shard_size w \<noteq> Some (Inl File_name_too_long)"
proof (cases "65535 < split_count max_shard_size (fdata xs)")
  case True
  then show ?thesis using split_checks(1) [OF src M, of P] by (simp add: split_status_def)
next
  case False
  from split_checks(3) [OF src M False nm, of P]
  obtain crc where s: "split P file_name max_shard_size w =
     split_loop P file_name max_shard_size (fmode xs)
       (ucast (split_count max_shard_size (fdata xs))) 1
       \<lparr> fd_path = c_str file_name, fd_pos = 0 \<rparr> (of_nat (length (fdata xs)))
       (zeroed_hdr\<lparr> magic := expected_magic,
           shard_count := ucast (split_count max_shard_size (fdata xs)),
           original_size := of_nat (length (fdata xs)), original_crc := crc,
           original_name := strcpy_zeroed name_capacity (base_name file_name) \<rparr>) w"
    by blast
  show ?thesis
  proof (cases "split P file_name max_shard_size w")
    case None
    then show ?thesis by (simp add: split_status_def)
  next
    case (Some y)
    then have "\<forall>e w'. y = (Inl e, w') \<longrightarrow> e = System_error"
      unfolding s by (rule split_loop_error)
    then show ?thesis using Some by (cases y) (auto simp: split_status_def)
  qed
qed

lemma split_status_count_fits:
  assumes src: "files w (c_str file_name) = Some xs" and M: "max_shard_size \<noteq> 0"
    and cnt: "\<not> 65535 < split_count max_shard_size (fdata xs)"
    and nm: "length (base_name file_name) < name_capacity"
  shows "split_status P file_name max_shard_size w \<noteq> Some (Inl Big_file)"
proof -
  from split_checks(3) [OF src M cnt nm, of P]
  obtain crc where s: "split P file_name max_shard_size w =
     split_loop P file_name max_shard_size (fmode xs)
       (ucast (split_count max_shard_size (fdata xs))) 1
       \<lparr> fd_path = c_str file_name, fd_pos = 0 \<rparr> (of_nat (length (fdata xs)))
       (zeroed_hdr\<lparr> magic := expected_magic,
           shard_count := ucast (split_count max_shard_size (fdata xs)),
           original_size := of_nat (length (fdata xs)), original_crc := crc,
           original_name := strcpy_zeroed name_capacity (base_name file_name) \<rparr>) w"
    by blast
  show ?thesis
  proof (cases "split P file_name max_shard_size w")
    case None
    then show ?thesis by (simp add: split_status_def)
  next
    case (Some y)
    then have "\<forall>e w'. y = (Inl e, w') \<longrightarrow> e = System_error"
      unfolding s by (rule split_loop_error)
    then show ?thesis using Some by (cases y) (auto simp: split_status_def)
  qed
qed

section \<open>The claims\<close>

lemma shard_file_lone: "shard_file wire_platform lone_world ''abc@1.3'' lone_hdr ''xyz''"
  by (simp add: shard_file_def lone_world_def world_of_def lone_hdr_def c_str_def NUL_def
        wire_platform_def length_packed_hdr_bytes strcpy_zeroed_def name_capacity_def)

text \<open>
  C8. When \<open>join\<close> is given fewer file names than the \<open>shard_count\<close> of the header it reads
  from the first of them, it fails with the count-mismatch error, and the world it returns
  is the one it was given: no file has been created, the output least of all.
\<close>

theorem join_too_few_files:
  assumes "open_shard P first w = Inr (master, inp)"
    and "length (first # others) < unat (shard_count master)"
  shows "join P (first # others) w =
     Some (Inl (Count_mismatch (length (first # others)) (unat (shard_count master))), w)"
  using assms by (simp add: join_def)

theorem join_too_few_files_witness:
  "open_shard wire_platform ''abc@1.3'' lone_world
      = Inr (lone_hdr, \<lparr> fd_path = ''abc@1.3'', fd_pos = 288 \<rparr>) \<and>
   length [''abc@1.3''] < unat (shard_count lone_hdr) \<and>
   join wire_platform [''abc@1.3''] lone_world = Some (Inl (Count_mismatch 1 3), lone_world)"
proof -
  have o: "open_shard wire_platform ''abc@1.3'' lone_world
      = Inr (lone_hdr, \<lparr> fd_path = ''abc@1.3'', fd_pos = 288 \<rparr>)"
    using open_shard_ok [OF wire_platform_ok shard_file_lone]
    by (simp add: c_str_def NUL_def wire_platform_def)
  have l: "length [''abc@1.3''] < unat (shard_count lone_hdr)"
    by (simp add: lone_hdr_def)
  from join_too_few_files [OF o l] o l show ?thesis
    by (simp add: lone_hdr_def)
qed

text \<open>
  C3 (as amended). Splitting a zero-byte source with a positive \<open>max_shard_size\<close> (and a name
  that fits the header) succeeds and leaves the world as it was: \<open>ceil(0 / max_shard_size)\<close>
  is 0, the loop body never runs, and no shard file is created.
\<close>

theorem split_empty_source_creates_nothing:
  assumes "files w (c_str file_name) = Some xs" and "fdata xs = []"
    and "max_shard_size \<noteq> 0" and "length (base_name file_name) < name_capacity"
  shows "split P file_name max_shard_size w = Some (Inr (), w)"
proof -
  have z: "split_count max_shard_size (fdata xs) = 0"
    using assms(2,3) by (simp add: split_count_Nil)
  then have "\<not> 65535 < split_count max_shard_size (fdata xs)" by simp
  from split_checks(3) [OF assms(1,3) this assms(4), of P]
  show ?thesis by (auto simp: z split_loop_no_shards)
qed

theorem split_empty_source_creates_nothing_witness:
  "files empty_world (c_str ''empty.bin'') = Some \<lparr> fdata = [], fmode = 420 \<rparr> \<and>
   fdata \<lparr> fdata = [], fmode = 420 \<rparr> = [] \<and>
   (1048576 :: 64 word) \<noteq> 0 \<and>
   length (base_name ''empty.bin'') < name_capacity \<and>
   split wire_platform ''empty.bin'' 1048576 empty_world = Some (Inr (), empty_world)"
proof -
  have f: "files empty_world (c_str ''empty.bin'') = Some \<lparr> fdata = [], fmode = 420 \<rparr>"
    by (simp add: empty_world_def world_of_def c_str_def NUL_def)
  have n: "length (base_name ''empty.bin'') < name_capacity"
    by (simp add: base_name_def strrchr_def c_str_def NUL_def name_capacity_def)
  from split_empty_source_creates_nothing [OF f _ _ n, of 1048576 wire_platform] f n
  show ?thesis by simp
qed

text \<open>
  C3 as stated fails: on the empty file \<open>empty.bin\<close> with a limit of 1 MiB, \<open>split\<close> returns
  success and the journal of the world it leaves shows no file created, where the claim
  expects one shard.
\<close>

theorem split_empty_source_counterexample:
  "split_status wire_platform ''empty.bin'' 1048576 empty_world = Some (Inr ()) \<and>
   created (journal (after_split wire_platform ''empty.bin'' 1048576 empty_world)) = []"
proof -
  have f: "files empty_world (c_str ''empty.bin'') = Some \<lparr> fdata = [], fmode = 420 \<rparr>"
    by (simp add: empty_world_def world_of_def c_str_def NUL_def)
  have z: "\<not> 65535 < split_count 1048576 (fdata \<lparr> fdata = [], fmode = 420 \<rparr>)"
    by (simp add: split_count_def)
  have n: "length (base_name ''empty.bin'') < name_capacity"
    by (simp add: base_name_def strrchr_def c_str_def NUL_def name_capacity_def)
  have "split wire_platform ''empty.bin'' 1048576 empty_world = Some (Inr (), empty_world)"
    using split_checks(3) [OF f _ z n, of wire_platform]
    by (auto simp: split_count_def split_loop_no_shards)
  then show ?thesis
    by (simp add: split_status_def after_split_def empty_world_def world_of_def)
qed

text \<open>
  C5 (as amended). The name check of \<open>split\<close> rejects a base name exactly when it has 256
  chars or more, that is 257 bytes or more with its terminator. For a source that can be
  opened and a positive \<open>max_shard_size\<close>, such a name makes \<open>split\<close> fail before it creates
  anything, with the name error, or with the size error when the shard count is over 65535
  as well, since that check comes first; the world is left as it was. A base name of 255
  chars or fewer passes the check: whatever \<open>split\<close> does then, it does not fail with the
  name error. (Whether a file with a name of 256 bytes or more can be opened at all is the
  file system's business; where names end at 255 bytes \<open>open(2)\<close> refuses it first.)
\<close>

theorem split_name_check:
  assumes "files w (c_str file_name) = Some xs" and "max_shard_size \<noteq> 0"
  shows "(name_capacity \<le> length (base_name file_name) \<longrightarrow>
            split P file_name max_shard_size w =
              Some (Inl (if 65535 < split_count max_shard_size (fdata xs) then Big_file
                         else File_name_too_long), w)) \<and>
         (length (base_name file_name) < name_capacity \<longrightarrow>
            split_status P file_name max_shard_size w \<noteq> Some (Inl File_name_too_long))"
proof (intro conjI impI)
  assume "name_capacity \<le> length (base_name file_name)"
  then show "split P file_name max_shard_size w =
     Some (Inl (if 65535 < split_count max_shard_size (fdata xs) then Big_file
                else File_name_too_long), w)"
    using split_checks(1,2) [OF assms, of P] by simp
next
  assume "length (base_name file_name) < name_capacity"
  then show "split_status P file_name max_shard_size w \<noteq> Some (Inl File_name_too_long)"
    using split_status_name_fits [OF assms, of P] by simp
qed

theorem split_name_check_witness:
  "files dir255_world (c_str dir255) = Some \<lparr> fdata = ''x'', fmode = 420 \<rparr> \<and>
   (1048576 :: 64 word) \<noteq> 0 \<and>
   length (base_name dir255) < name_capacity \<and>
   split_status wire_platform dir255 1048576 dir255_world \<noteq> Some (Inl File_name_too_long)"
proof -
  have f: "files dir255_world (c_str dir255) = Some \<lparr> fdata = ''x'', fmode = 420 \<rparr>"
    by (simp add: dir255_world_def world_of_def dir255_facts)
  have n: "length (base_name dir255) < name_capacity"
    by (simp add: dir255_facts name255_facts name_capacity_def)
  from split_name_check [OF f, of 1048576 wire_platform] f n
  show ?thesis by simp
qed

text \<open>
  C5 as stated fails at its boundary: a base name of exactly 255 chars (256 bytes with the
  terminator, which is what the header's buffer holds) passes the name check. On the
  one-byte source of that name \<open>split\<close> does not fail with the name error, nor with the
  size error.
\<close>

theorem split_name_255_counterexample:
  "length (base_name name255) = 255 \<and>
   split_status wire_platform name255 1048576 world255 \<noteq> Some (Inl File_name_too_long) \<and>
   split_status wire_platform name255 1048576 world255 \<noteq> Some (Inl Big_file)"
proof -
  have f: "files world255 (c_str name255) = Some \<lparr> fdata = ''x'', fmode = 420 \<rparr>"
    by (simp add: world255_def world_of_def name255_facts)
  have c: "\<not> 65535 < split_count 1048576 (fdata \<lparr> fdata = ''x'', fmode = 420 \<rparr>)"
    by (simp add: split_count_def)
  have n: "length (base_name name255) < name_capacity"
    by (simp add: name255_facts name_capacity_def)
  show ?thesis
    using split_status_name_fits [OF f _ n, of 1048576 wire_platform]
      split_status_count_fits [OF f _ c n, of wire_platform]
    by (simp add: name255_facts)
qed

text \<open>
  C2 (as amended). Let the source be non-empty, \<open>max_shard_size\<close> at least the header size,
  the sum of the two sizes within 64 bits, and the shard count \<open>n = ceil(S / max_shard_size)\<close>
  below 65535. Then \<open>split\<close> succeeds and creates exactly the shards 1 to \<open>n\<close>; every shard
  before the last has a payload of \<open>c = max_shard_size - header_size\<close> bytes; and the last has
  \<open>S - (n - 1) * c\<close> bytes whenever that many fit a shard, that is, are at most \<open>c\<close>.
\<close>

theorem split_shard_sizes:
  assumes ok: "platform_ok P" and nonul: "NUL \<notin> set file_name"
    and src: "files w (c_str file_name) = Some xs" and ne: "fdata xs \<noteq> []"
    and M: "sizeof_shard_hdr P \<le> max_shard_size"
    and fit: "length (fdata xs) + unat max_shard_size \<le> 2 ^ 64"
    and cnt: "(length (fdata xs) + unat max_shard_size - 1) div unat max_shard_size < 65535"
    and nm: "length (base_name file_name) < name_capacity"
  shows "(let S = length (fdata xs);
              n = (S + unat max_shard_size - 1) div unat max_shard_size;
              c = unat max_shard_size - unat (sizeof_shard_hdr P);
              w' = after_split P file_name max_shard_size w
          in split_status P file_name max_shard_size w = Some (Inr ()) \<and>
             created (journal w') = created (journal w) @ map (shard_path file_name n) [1..<Suc n] \<and>
             (\<forall>i. 1 \<le> i \<and> i < n \<longrightarrow>
                map_option length (payload_of P w' (shard_path file_name n i)) = Some c) \<and>
             (S - (n - 1) * c \<le> c \<longrightarrow>
                map_option length (payload_of P w' (shard_path file_name n n)) = Some (S - (n - 1) * c)))"
proof -
  define data where "data = fdata xs"
  define m where "m = unat max_shard_size"
  define n where "n = (length data + m - 1) div m"
  define c where "c = m - unat (sizeof_shard_hdr P)"
  define base where "base = split_hdr P file_name max_shard_size data"
  define w' where "w' = emit_shards P file_name (fmode xs) n base c data [1..<Suc n] w"
  have hs: "0 < unat (sizeof_shard_hdr P)" by (rule platform_ok_hdr_pos [OF ok])
  have mpos: "0 < m" using M hs by (simp add: m_def word_le_nat_alt)
  then have M0: "max_shard_size \<noteq> 0" by (auto simp: m_def)
  have spos: "0 < length data" using ne by (simp add: data_def)
  have cap: "shard_capacity P max_shard_size = c"
    by (simp add: c_def m_def shard_capacity_ge [OF M])
  have cm: "c \<le> m" by (simp add: c_def)
  have un: "unat (split_count max_shard_size data) = n"
    unfolding n_def m_def using fit by (intro unat_split_count [OF M0]) (simp add: data_def)
  have len: "length data < 2 ^ 64" using fit mpos by (simp add: data_def m_def)
  have sp: "split P file_name max_shard_size w = Some (Inr (), w')"
    using split_emits [OF ok nonul src data_def [symmetric] len M0 _ nm] cnt un
    by (simp add: w'_def base_def cap data_def n_def m_def)
  have npos: "0 < n"
  proof (rule ccontr)
    assume "\<not> 0 < n"
    then have "n = 0" by simp
    moreover have "length data \<le> n * m"
      unfolding n_def by (rule ceil_div_bounds(2) [OF mpos spos])
    ultimately have "length data = 0" by simp
    then show False using spos by simp
  qed
  have lo: "(n - 1) * m < length data"
    unfolding n_def by (rule ceil_div_bounds(1) [OF mpos spos])
  have pl: "payload_of P w' (shard_path file_name n i) = Some (shard_payload c data i)"
    if "1 \<le> i" "i \<le> n" for i
    unfolding w'_def using that by (subst payload_of_emit_shards [OF ok nonul]) auto
  have inner: "map_option length (payload_of P w' (shard_path file_name n i)) = Some c"
    if "1 \<le> i" "i < n" for i
  proof -
    have "i * c \<le> i * m" using cm by (simp add: mult_le_mono2)
    also have "\<dots> \<le> (n - 1) * m"
    proof -
      have "i \<le> n - 1" using that(2) by linarith
      then show ?thesis by (rule mult_le_mono1)
    qed
    finally have "i * c < length data" using lo by linarith
    moreover have "i * c = (i - 1) * c + c" using that(1) by (cases i) simp_all
    ultimately have "c \<le> length data - (i - 1) * c" by linarith
    then show ?thesis using that by (simp add: pl shard_payload_def min_def)
  qed
  have last: "map_option length (payload_of P w' (shard_path file_name n n)) = Some (length data - (n - 1) * c)"
    if "length data - (n - 1) * c \<le> c"
    using that npos by (simp add: pl shard_payload_def min_def)
  have cr: "created (journal w') = created (journal w) @ map (shard_path file_name n) [1..<Suc n]"
    by (simp add: w'_def created_emit_shards del: upt_Suc)
  show ?thesis
    unfolding Let_def data_def [symmetric] m_def [symmetric] n_def [symmetric] c_def [symmetric]
    using status_after_split [OF sp] inner last cr by simp
qed


theorem split_shard_sizes_witness:
  "platform_ok wire_platform \<and> NUL \<notin> set ''f'' \<and>
   files x1100_world (c_str ''f'') = Some \<lparr> fdata = replicate 1100 CHR ''x'', fmode = 420 \<rparr> \<and>
   fdata \<lparr> fdata = replicate 1100 CHR ''x'', fmode = 420 \<rparr> \<noteq> [] \<and>
   sizeof_shard_hdr wire_platform \<le> 1000 \<and>
   length (replicate 1100 CHR ''x'') + unat (1000 :: 64 word) \<le> 2 ^ 64 \<and>
   (length (replicate 1100 CHR ''x'') + unat (1000 :: 64 word) - 1) div unat (1000 :: 64 word) < 65535 \<and>
   length (base_name ''f'') < name_capacity \<and>
   split_status wire_platform ''f'' 1000 x1100_world = Some (Inr ()) \<and>
   created (journal (after_split wire_platform ''f'' 1000 x1100_world)) = [''f@1.2'', ''f@2.2''] \<and>
   map_option length (payload_of wire_platform (after_split wire_platform ''f'' 1000 x1100_world) ''f@1.2'')
     = Some 712 \<and>
   map_option length (payload_of wire_platform (after_split wire_platform ''f'' 1000 x1100_world) ''f@2.2'')
     = Some 388"
proof -
  let ?xs = "\<lparr> fdata = replicate 1100 CHR ''x'', fmode = 420 \<rparr>"
  have f: "files x1100_world (c_str ''f'') = Some ?xs"
    unfolding x1100_world_def by (rule f_world_facts(1))
  have j: "created (journal x1100_world) = []" by (simp add: x1100_world_def f_world_facts(2))
  have h: "fdata ?xs \<noteq> []" "sizeof_shard_hdr wire_platform \<le> 1000"
    "length (fdata ?xs) + unat (1000 :: 64 word) \<le> 2 ^ 64"
    "(length (fdata ?xs) + unat (1000 :: 64 word) - 1) div unat (1000 :: 64 word) < 65535"
    by (simp_all add: wire_platform_def)
  have n2: "(length (fdata ?xs) + unat (1000 :: 64 word) - 1) div unat (1000 :: 64 word) = 2"
    by simp
  have c: "unat (1000 :: 64 word) - unat (sizeof_shard_hdr wire_platform) = 712"
    by (simp add: wire_platform_def)
  have l: "length (fdata ?xs) = 1100" by simp
  note T = split_shard_sizes [OF wire_platform_ok ab_world_facts(2) f h ab_world_facts(3),
      unfolded Let_def n2 c l]
  have A: "split_status wire_platform ''f'' 1000 x1100_world = Some (Inr ())" using T by simp
  have B: "created (journal (after_split wire_platform ''f'' 1000 x1100_world)) = [''f@1.2'', ''f@2.2'']"
  proof -
    have "created (journal (after_split wire_platform ''f'' 1000 x1100_world))
        = created (journal x1100_world) @ map (shard_path ''f'' 2) [1..<Suc 2]"
      using T by simp
    then show ?thesis unfolding upt_1_3 j by (simp only: list.map shard_path_f append_Nil)
  qed
  have C: "map_option length (payload_of wire_platform (after_split wire_platform ''f'' 1000 x1100_world)
       (shard_path ''f'' 2 1)) = Some 712"
    using T by simp
  have D: "map_option length (payload_of wire_platform (after_split wire_platform ''f'' 1000 x1100_world)
       (shard_path ''f'' 2 2)) = Some 388"
    using T by simp
  show ?thesis
    using wire_platform_ok ab_world_facts(2,3) f h A B C [unfolded shard_path_f] D [unfolded shard_path_f]
    by simp
qed

text \<open>
  C2 as stated fails in two ways. A source of 65536 * 289 bytes with a limit of 289 would
  need 65536 shards; \<open>split\<close> fails on it and creates none. And on the two-byte source
  \<open>AB\<close> with a limit of 289 (one payload byte to a shard, with the 288-byte header) the only
  and so the last shard holds the single byte \<open>A\<close>, where the claim's
  \<open>S - (shard_count - 1) * (M - header_size)\<close> is 2.
\<close>

theorem split_shard_sizes_counterexample:
  "split wire_platform ''f'' 289 big_world = Some (Inl Big_file, big_world) \<and>
   split_status wire_platform ''f'' 289 ab_world = Some (Inr ()) \<and>
   created (journal (after_split wire_platform ''f'' 289 ab_world)) = [''f@1.1''] \<and>
   payload_of wire_platform (after_split wire_platform ''f'' 289 ab_world) ''f@1.1'' = Some ''A''"
proof -
  have "65535 < split_count 289 (fdata \<lparr> fdata = replicate 18939904 CHR ''x'', fmode = 420 \<rparr>)"
    by (simp add: split_count_def)
  from split_checks(1) [OF f_world_facts(1) _ this, of wire_platform]
  have big: "split wire_platform ''f'' 289 big_world = Some (Inl Big_file, big_world)"
    by (simp add: big_world_def)
  have c1: "split_count 289 ''AB'' = 1" by (simp add: split_count_def)
  have cap: "shard_capacity wire_platform 289 = 1"
    by (simp add: shard_capacity_def wire_platform_def)
  define w' where "w' = emit_shards wire_platform ''f'' 420 1
                     (split_hdr wire_platform ''f'' 289 ''AB'') 1 ''AB'' [1..<Suc 1] ab_world"
  have sp: "split wire_platform ''f'' 289 ab_world = Some (Inr (), w')"
    using split_emits [OF wire_platform_ok ab_world_facts(2,1), of "''AB''" 289] ab_world_facts(3)
    by (simp add: c1 cap w'_def)
  have cr: "created (journal w') = [''f@1.1'']"
    unfolding w'_def created_emit_shards
    by (simp add: shard_path_f [unfolded One_nat_def] ab_world_def world_of_def)
  have "payload_of wire_platform w' (shard_path ''f'' 1 1) = Some (shard_payload 1 ''AB'' 1)"
    unfolding w'_def
    by (rule payload_of_emit_shards [OF wire_platform_ok ab_world_facts(2)]) simp_all
  then have pl: "payload_of wire_platform w' ''f@1.1'' = Some ''A''"
    unfolding shard_path_f by (simp add: shard_payload_def)
  show ?thesis
    using big status_after_split [OF sp] cr pl by simp
qed

text \<open>
  C10 (as amended). Let the source be non-empty, \<open>1 \<le> max_shard_size < sizeof(shard_hdr_t)\<close>,
  and the shard count \<open>ceil(size / max_shard_size)\<close> below 65535 (so that the size check
  passes and the 16-bit loop counter does not wrap); let the source and a header together
  stay within 64 bits. Then \<open>max_shard_size - sizeof(shard_hdr_t)\<close> wraps to a number no
  smaller than the source, \<open>split\<close> succeeds and creates exactly the shards 1 to the shard
  count, shard 1 holds the whole source as its payload, and every later shard has an empty
  payload.
\<close>

theorem split_limit_below_header:
  assumes ok: "platform_ok P" and nonul: "NUL \<notin> set file_name"
    and src: "files w (c_str file_name) = Some xs" and ne: "fdata xs \<noteq> []"
    and M: "max_shard_size \<noteq> 0" "max_shard_size < sizeof_shard_hdr P"
    and fit: "length (fdata xs) + unat (sizeof_shard_hdr P) \<le> 2 ^ 64"
    and cnt: "(length (fdata xs) + unat max_shard_size - 1) div unat max_shard_size < 65535"
    and nm: "length (base_name file_name) < name_capacity"
  shows "(let n = (length (fdata xs) + unat max_shard_size - 1) div unat max_shard_size;
              w' = after_split P file_name max_shard_size w
          in split_status P file_name max_shard_size w = Some (Inr ()) \<and>
             created (journal w') = created (journal w) @ map (shard_path file_name n) [1..<Suc n] \<and>
             payload_of P w' (shard_path file_name n 1) = Some (fdata xs) \<and>
             (\<forall>i. 2 \<le> i \<and> i \<le> n \<longrightarrow> payload_of P w' (shard_path file_name n i) = Some []))"
proof -
  define data where "data = fdata xs"
  define n where "n = (length data + unat max_shard_size - 1) div unat max_shard_size"
  define c where "c = shard_capacity P max_shard_size"
  define base where "base = split_hdr P file_name max_shard_size data"
  define w' where "w' = emit_shards P file_name (fmode xs) n base c data [1..<Suc n] w"
  have lt: "unat max_shard_size < unat (sizeof_shard_hdr P)"
    using M(2) by (simp add: word_less_nat_alt)
  then have fitM: "length data + unat max_shard_size \<le> 2 ^ 64" using fit by (simp add: data_def)
  have un: "unat (split_count max_shard_size data) = n"
    unfolding n_def by (rule unat_split_count [OF M(1) fitM])
  have len: "length data < 2 ^ 64" using fit platform_ok_hdr_pos [OF ok] by (simp add: data_def)
  have sp: "split P file_name max_shard_size w = Some (Inr (), w')"
    using split_emits [OF ok nonul src data_def [symmetric] len M(1) _ nm] cnt un
    by (simp add: w'_def base_def c_def data_def n_def)
  have big: "length data \<le> c"
    using fit lt by (simp add: c_def shard_capacity_wrapped [OF M(2)] data_def)
  have npos: "1 \<le> n"
  proof -
    have "0 < length data" "0 < unat max_shard_size"
      using ne M(1) by (simp_all add: data_def unat_gt_0)
    then have "unat max_shard_size \<le> length data + unat max_shard_size - 1" by linarith
    then have "0 < n" unfolding n_def
      using \<open>0 < unat max_shard_size\<close> by (simp only: div_greater_zero_iff)
    then show ?thesis by simp
  qed
  have p1: "payload_of P w' (shard_path file_name n 1) = Some data"
    unfolding w'_def using npos big
    by (subst payload_of_emit_shards [OF ok nonul]) (auto simp add: shard_payload_def)
  have pi: "payload_of P w' (shard_path file_name n i) = Some []" if "2 \<le> i" "i \<le> n" for i
  proof -
    have "c \<le> (i - 1) * c" using that(1) by (cases i) simp_all
    then have "length data \<le> (i - 1) * c" using big by linarith
    then show ?thesis
      unfolding w'_def using that
      by (subst payload_of_emit_shards [OF ok nonul]) (auto simp add: shard_payload_def)
  qed
  have cr: "created (journal w') = created (journal w) @ map (shard_path file_name n) [1..<Suc n]"
    by (simp add: w'_def created_emit_shards del: upt_Suc)
  show ?thesis
    unfolding Let_def data_def [symmetric] n_def [symmetric]
    using status_after_split [OF sp] p1 pi cr by simp
qed

theorem split_limit_below_header_witness:
  "platform_ok wire_platform \<and> NUL \<notin> set ''f'' \<and>
   files ab_world (c_str ''f'') = Some \<lparr> fdata = ''AB'', fmode = 420 \<rparr> \<and>
   fdata \<lparr> fdata = ''AB'', fmode = 420 \<rparr> \<noteq> [] \<and>
   (1 :: 64 word) \<noteq> 0 \<and> 1 < sizeof_shard_hdr wire_platform \<and>
   length ''AB'' + unat (sizeof_shard_hdr wire_platform) \<le> 2 ^ 64 \<and>
   (length ''AB'' + unat (1 :: 64 word) - 1) div unat (1 :: 64 word) < 65535 \<and>
   length (base_name ''f'') < name_capacity \<and>
   split_status wire_platform ''f'' 1 ab_world = Some (Inr ()) \<and>
   created (journal (after_split wire_platform ''f'' 1 ab_world)) = [''f@1.2'', ''f@2.2''] \<and>
   payload_of wire_platform (after_split wire_platform ''f'' 1 ab_world) ''f@1.2'' = Some ''AB'' \<and>
   payload_of wire_platform (after_split wire_platform ''f'' 1 ab_world) ''f@2.2'' = Some []"
proof -
  have h: "(1 :: 64 word) < sizeof_shard_hdr wire_platform"
    "length (fdata \<lparr> fdata = ''AB'', fmode = 420 \<rparr>) + unat (sizeof_shard_hdr wire_platform) \<le> 2 ^ 64"
    "(length (fdata \<lparr> fdata = ''AB'', fmode = 420 \<rparr>) + unat (1 :: 64 word) - 1) div unat (1 :: 64 word) < 65535"
    by (simp_all add: wire_platform_def)
  have j: "created (journal ab_world) = []" by (simp add: ab_world_def world_of_def)
  have n2: "(length (fdata \<lparr> fdata = ''AB'', fmode = 420 \<rparr>) + unat (1 :: 64 word) - 1)
      div unat (1 :: 64 word) = 2" by simp
  note T = split_limit_below_header [OF wire_platform_ok ab_world_facts(2,1) _ _ h ab_world_facts(3),
      unfolded Let_def n2]
  have A: "split_status wire_platform ''f'' 1 ab_world = Some (Inr ())" using T by simp
  have B: "created (journal (after_split wire_platform ''f'' 1 ab_world)) = [''f@1.2'', ''f@2.2'']"
  proof -
    have "created (journal (after_split wire_platform ''f'' 1 ab_world))
        = created (journal ab_world) @ map (shard_path ''f'' 2) [1..<Suc 2]"
      using T by simp
    then show ?thesis unfolding upt_1_3 j by (simp only: list.map shard_path_f append_Nil)
  qed
  have C: "payload_of wire_platform (after_split wire_platform ''f'' 1 ab_world) (shard_path ''f'' 2 1) = Some ''AB''"
    using T by simp
  have D: "payload_of wire_platform (after_split wire_platform ''f'' 1 ab_world) (shard_path ''f'' 2 2) = Some []"
    using T by simp
  show ?thesis
    using wire_platform_ok ab_world_facts h A B C [unfolded shard_path_f] D [unfolded shard_path_f]
    by (simp add: wire_platform_def)
qed

text \<open>
  C10 as stated fails when the source is large against the limit: 65536 bytes with a limit
  of 1 make 65536 shards, over the 65535 the size check allows, and \<open>split\<close> fails.
\<close>

theorem split_limit_below_header_counterexample:
  "split wire_platform ''f'' 1 x65536_world = Some (Inl Big_file, x65536_world)"
proof -
  have "65535 < split_count 1 (fdata \<lparr> fdata = replicate 65536 CHR ''x'', fmode = 420 \<rparr>)"
    by (simp add: split_count_def)
  from split_checks(1) [OF f_world_facts(1) _ this, of wire_platform]
  show ?thesis by (simp add: x65536_world_def)
qed


text \<open>
  C9 (as amended). When \<open>split\<close> runs to success (source there, positive limit, shard count
  below 65535, name that fits), what it does to the file system is, shard by shard in
  ascending index, this run of events for shard \<open>i\<close>: the file is created; the whole
  header is written at offset 0; the payload is written from the end of the header on; the
  whole header is written at offset 0 once more. So exactly two writes go to offset 0 of
  each shard file, both headers, the first before any payload and the second after all of
  it. The two headers differ at most in \<open>shard_crc\<close>. The second carries the CRC of the
  shard's payload. The first carries whatever the loop's header variable held: 0 for shard
  1, and for a later shard the final CRC of the shard before it.
\<close>

theorem split_two_header_writes:
  assumes ok: "platform_ok P" and nonul: "NUL \<notin> set file_name"
    and src: "files w (c_str file_name) = Some xs"
    and len: "length (fdata xs) < 2 ^ 64"
    and M: "max_shard_size \<noteq> 0"
    and cnt: "unat (split_count max_shard_size (fdata xs)) < 65535"
    and nm: "length (base_name file_name) < name_capacity"
  shows "(let data = fdata xs;
              n = unat (split_count max_shard_size data);
              c = shard_capacity P max_shard_size;
              base = split_hdr P file_name max_shard_size data;
              w' = after_split P file_name max_shard_size w
          in split_status P file_name max_shard_size w = Some (Inr ()) \<and>
             journal w'
               = journal w @ concat (map (shard_events P file_name (fmode xs) n base c data) [1..<Suc n]) \<and>
             (\<forall>i. 1 \<le> i \<and> i \<le> n \<longrightarrow>
                shard_events P file_name (fmode xs) n base c data i
                  = [Creat (shard_path file_name n i) (fmode xs),
                     Write (shard_path file_name n i) 0 (hdr_bytes P (first_hdr P base c data i))] @
                    write_events (shard_path file_name n i) (unat (sizeof_shard_hdr P))
                      (shard_payload c data i) @
                    [Write (shard_path file_name n i) 0 (hdr_bytes P (final_hdr P base c data i))] \<and>
                writes_at (shard_path file_name n i) 0
                  (write_events (shard_path file_name n i) (unat (sizeof_shard_hdr P))
                     (shard_payload c data i)) = [] \<and>
                writes_at (shard_path file_name n i) 0 (drop (length (journal w)) (journal w'))
                  = [hdr_bytes P (first_hdr P base c data i), hdr_bytes P (final_hdr P base c data i)] \<and>
                first_hdr P base c data i
                  = (final_hdr P base c data i)\<lparr> shard_crc := shard_crc (first_hdr P base c data i) \<rparr> \<and>
                shard_crc (first_hdr P base c data i)
                  = (if i = 1 then 0 else update_crc P 0 (shard_payload c data (i - 1))) \<and>
                shard_crc (final_hdr P base c data i) = update_crc P 0 (shard_payload c data i) \<and>
                payload_of P w' (shard_path file_name n i) = Some (shard_payload c data i)))"
proof -
  define data where "data = fdata xs"
  define n where "n = unat (split_count max_shard_size data)"
  define c where "c = shard_capacity P max_shard_size"
  define base where "base = split_hdr P file_name max_shard_size data"
  define w' where "w' = emit_shards P file_name (fmode xs) n base c data [1..<Suc n] w"
  have sp: "split P file_name max_shard_size w = Some (Inr (), w')"
    using split_emits [OF ok nonul src data_def [symmetric] _ M _ nm] cnt len
    by (simp add: w'_def base_def c_def data_def n_def)
  have jr: "drop (length (journal w)) (journal w')
      = concat (map (shard_events P file_name (fmode xs) n base c data) [1..<Suc n])"
    by (simp add: w'_def journal_emit_shards del: upt_Suc)
  have jw: "journal w'
      = journal w @ concat (map (shard_events P file_name (fmode xs) n base c data) [1..<Suc n])"
    unfolding w'_def by (rule journal_emit_shards)
  have b0: "shard_crc base = 0" by (simp add: base_def split_hdr_def zeroed_hdr_def)
  have each: "shard_events P file_name (fmode xs) n base c data i
                  = [Creat (shard_path file_name n i) (fmode xs),
                     Write (shard_path file_name n i) 0 (hdr_bytes P (first_hdr P base c data i))] @
                    write_events (shard_path file_name n i) (unat (sizeof_shard_hdr P))
                      (shard_payload c data i) @
                    [Write (shard_path file_name n i) 0 (hdr_bytes P (final_hdr P base c data i))] \<and>
                writes_at (shard_path file_name n i) 0
                  (write_events (shard_path file_name n i) (unat (sizeof_shard_hdr P))
                     (shard_payload c data i)) = [] \<and>
                writes_at (shard_path file_name n i) 0 (drop (length (journal w)) (journal w'))
                  = [hdr_bytes P (first_hdr P base c data i), hdr_bytes P (final_hdr P base c data i)] \<and>
                first_hdr P base c data i
                  = (final_hdr P base c data i)\<lparr> shard_crc := shard_crc (first_hdr P base c data i) \<rparr> \<and>
                shard_crc (first_hdr P base c data i)
                  = (if i = 1 then 0 else update_crc P 0 (shard_payload c data (i - 1))) \<and>
                shard_crc (final_hdr P base c data i) = update_crc P 0 (shard_payload c data i) \<and>
                payload_of P w' (shard_path file_name n i) = Some (shard_payload c data i)"
    if "1 \<le> i" "i \<le> n" for i
  proof -
    have mem: "distinct [1..<Suc n]" "i \<in> set [1..<Suc n]" using that by auto
    have "writes_at (shard_path file_name n i) 0 (drop (length (journal w)) (journal w'))
        = [hdr_bytes P (first_hdr P base c data i), hdr_bytes P (final_hdr P base c data i)]"
      unfolding jr by (rule writes_at_shard_events_list [OF ok nonul mem])
    moreover have "payload_of P w' (shard_path file_name n i) = Some (shard_payload c data i)"
      unfolding w'_def by (rule payload_of_emit_shards [OF ok nonul mem])
    moreover have "writes_at (shard_path file_name n i) 0
                  (write_events (shard_path file_name n i) (unat (sizeof_shard_hdr P))
                     (shard_payload c data i)) = []"
      by (rule writes_at_write_events_before [OF platform_ok_hdr_pos [OF ok]])
    moreover have "shard_events P file_name (fmode xs) n base c data i
                  = [Creat (shard_path file_name n i) (fmode xs),
                     Write (shard_path file_name n i) 0 (hdr_bytes P (first_hdr P base c data i))] @
                    write_events (shard_path file_name n i) (unat (sizeof_shard_hdr P))
                      (shard_payload c data i) @
                    [Write (shard_path file_name n i) 0 (hdr_bytes P (final_hdr P base c data i))]"
      by (rule shard_events_def)
    ultimately show ?thesis
      by (simp add: first_hdr_def final_hdr_def b0)
  qed
  have st: "split_status P file_name max_shard_size w = Some (Inr ())"
    and aw: "after_split P file_name max_shard_size w = w'"
    using status_after_split [OF sp] by simp_all
  show ?thesis
    unfolding Let_def data_def [symmetric] n_def [symmetric] c_def [symmetric] base_def [symmetric] aw
    using st jw each by blast
qed

theorem split_two_header_writes_witness:
  "platform_ok wire_platform \<and> NUL \<notin> set ''f'' \<and>
   files ab290_world (c_str ''f'') = Some \<lparr> fdata = ab290, fmode = 420 \<rparr> \<and>
   length (fdata \<lparr> fdata = ab290, fmode = 420 \<rparr>) < 2 ^ 64 \<and>
   (289 :: 64 word) \<noteq> 0 \<and>
   unat (split_count 289 (fdata \<lparr> fdata = ab290, fmode = 420 \<rparr>)) < 65535 \<and>
   length (base_name ''f'') < name_capacity \<and>
   split_status wire_platform ''f'' 289 ab290_world = Some (Inr ()) \<and>
   journal (after_split wire_platform ''f'' 289 ab290_world)
     = [Creat ''f@1.2'' 420,
        Write ''f@1.2'' 0 (hdr_bytes wire_platform (first_hdr wire_platform (split_hdr wire_platform ''f'' 289 ab290) 1 ab290 1)),
        Write ''f@1.2'' 288 ''A'',
        Write ''f@1.2'' 0 (hdr_bytes wire_platform (final_hdr wire_platform (split_hdr wire_platform ''f'' 289 ab290) 1 ab290 1)),
        Creat ''f@2.2'' 420,
        Write ''f@2.2'' 0 (hdr_bytes wire_platform (first_hdr wire_platform (split_hdr wire_platform ''f'' 289 ab290) 1 ab290 2)),
        Write ''f@2.2'' 288 ''B'',
        Write ''f@2.2'' 0 (hdr_bytes wire_platform (final_hdr wire_platform (split_hdr wire_platform ''f'' 289 ab290) 1 ab290 2))] \<and>
   writes_at ''f@2.2'' 0 (journal (after_split wire_platform ''f'' 289 ab290_world))
     = [hdr_bytes wire_platform (first_hdr wire_platform (split_hdr wire_platform ''f'' 289 ab290) 1 ab290 2),
        hdr_bytes wire_platform (final_hdr wire_platform (split_hdr wire_platform ''f'' 289 ab290) 1 ab290 2)] \<and>
   shard_crc (first_hdr wire_platform (split_hdr wire_platform ''f'' 289 ab290) 1 ab290 2) = 0xD3D99E8B \<and>
   shard_crc (final_hdr wire_platform (split_hdr wire_platform ''f'' 289 ab290) 1 ab290 2) = 0x4AD0CF31 \<and>
   payload_of wire_platform (after_split wire_platform ''f'' 289 ab290_world) ''f@2.2'' = Some ''B''"
proof -
  let ?xs = "\<lparr> fdata = ab290, fmode = 420 \<rparr>"
  have h: "length (fdata ?xs) < 2 ^ 64" "(289 :: 64 word) \<noteq> 0"
    "unat (split_count 289 (fdata ?xs)) < 65535"
    by (simp_all add: ab290_facts)
  have n2: "unat (split_count 289 ab290) = 2" by (simp add: ab290_facts)
  have d: "fdata ?xs = ab290" "fmode ?xs = 420" by simp_all
  note T = split_two_header_writes [OF wire_platform_ok ab_world_facts(2) ab290_facts(1) h
      ab_world_facts(3), unfolded Let_def d, unfolded n2 ab290_facts(5)]
  have st: "split_status wire_platform ''f'' 289 ab290_world = Some (Inr ())"
    using T by (rule conjunct1)
  have hs: "unat (sizeof_shard_hdr wire_platform) = 288" by (simp add: wire_platform_def)
  have we: "write_events p 288 [x] = [Write p 288 [x]]" for p x
    by (subst write_events.simps, subst write_events.simps) simp
  have se: "shard_events wire_platform ''f'' 420 2 b 1 ab290 1
      = [Creat ''f@1.2'' 420,
         Write ''f@1.2'' 0 (hdr_bytes wire_platform (first_hdr wire_platform b 1 ab290 1)),
         Write ''f@1.2'' 288 ''A'',
         Write ''f@1.2'' 0 (hdr_bytes wire_platform (final_hdr wire_platform b 1 ab290 1))]"
    "shard_events wire_platform ''f'' 420 2 b 1 ab290 2
      = [Creat ''f@2.2'' 420,
         Write ''f@2.2'' 0 (hdr_bytes wire_platform (first_hdr wire_platform b 1 ab290 2)),
         Write ''f@2.2'' 288 ''B'',
         Write ''f@2.2'' 0 (hdr_bytes wire_platform (final_hdr wire_platform b 1 ab290 2))]" for b
    unfolding shard_events_def shard_path_f hs ab290_facts(6,7) we by simp_all
  have jn: "journal (after_split wire_platform ''f'' 289 ab290_world)
     = [Creat ''f@1.2'' 420,
        Write ''f@1.2'' 0 (hdr_bytes wire_platform (first_hdr wire_platform (split_hdr wire_platform ''f'' 289 ab290) 1 ab290 1)),
        Write ''f@1.2'' 288 ''A'',
        Write ''f@1.2'' 0 (hdr_bytes wire_platform (final_hdr wire_platform (split_hdr wire_platform ''f'' 289 ab290) 1 ab290 1)),
        Creat ''f@2.2'' 420,
        Write ''f@2.2'' 0 (hdr_bytes wire_platform (first_hdr wire_platform (split_hdr wire_platform ''f'' 289 ab290) 1 ab290 2)),
        Write ''f@2.2'' 288 ''B'',
        Write ''f@2.2'' 0 (hdr_bytes wire_platform (final_hdr wire_platform (split_hdr wire_platform ''f'' 289 ab290) 1 ab290 2))]"
    using T [THEN conjunct2, THEN conjunct1]
    unfolding ab290_facts(2) upt_1_3 list.map concat.simps se by simp
  have two: "(1::nat) \<le> 2 \<and> (2::nat) \<le> 2" by simp
  note E = T [THEN conjunct2, THEN conjunct2, rule_format, OF two, THEN conjunct2, THEN conjunct2,
      unfolded shard_path_f ab290_facts(2)]
  have u: "update_crc wire_platform = crc32_update" by (simp add: wire_platform_def)
  have e1: "writes_at ''f@2.2'' 0 (journal (after_split wire_platform ''f'' 289 ab290_world))
     = [hdr_bytes wire_platform (first_hdr wire_platform (split_hdr wire_platform ''f'' 289 ab290) 1 ab290 2),
        hdr_bytes wire_platform (final_hdr wire_platform (split_hdr wire_platform ''f'' 289 ab290) 1 ab290 2)]"
    using E [THEN conjunct1] by simp
  have e3: "shard_crc (first_hdr wire_platform (split_hdr wire_platform ''f'' 289 ab290) 1 ab290 2)
      = crc32_update 0 (shard_payload 1 ab290 1)"
    using E [THEN conjunct2, THEN conjunct2, THEN conjunct1] by (simp add: u)
  have e4: "shard_crc (final_hdr wire_platform (split_hdr wire_platform ''f'' 289 ab290) 1 ab290 2)
      = crc32_update 0 (shard_payload 1 ab290 2)"
    using E [THEN conjunct2, THEN conjunct2, THEN conjunct2, THEN conjunct1] by (simp add: u)
  have e5: "payload_of wire_platform (after_split wire_platform ''f'' 289 ab290_world) ''f@2.2''
      = Some (shard_payload 1 ab290 2)"
    using E [THEN conjunct2, THEN conjunct2, THEN conjunct2, THEN conjunct2] .
  note r = e3 [unfolded ab290_facts crc32_A] e4 [unfolded ab290_facts crc32_B] e5 [unfolded ab290_facts]
  show ?thesis
    by (intro conjI wire_platform_ok ab_world_facts(2,3) ab290_facts(1) h st jn e1 r)
qed

text \<open>
  C9 as stated fails from the second shard on. On a 290-byte source that starts with \<open>AB\<close>,
  with a limit of 289 (one payload byte to a shard), the two writes at offset 0 of shard 2
  decode to headers whose \<open>shard_crc\<close> are \<open>0xD3D99E8B\<close>, the CRC-32 of shard 1's payload
  \<open>A\<close>, and then \<open>0x4AD0CF31\<close>, that of its own payload \<open>B\<close>: the first is no
  placeholder 0.
\<close>

theorem split_placeholder_counterexample:
  "map (shard_crc \<circ> bytes_hdr wire_platform)
     (writes_at ''f@2.2'' 0 (journal (after_split wire_platform ''f'' 289 ab290_world)))
     = [0xD3D99E8B, 0x4AD0CF31]"
proof -
  define base where "base = split_hdr wire_platform ''f'' 289 ab290"
  define w' where "w' = emit_shards wire_platform ''f'' 420 2 base 1 ab290 [1..<Suc 2] ab290_world"
  have sp: "split wire_platform ''f'' 289 ab290_world = Some (Inr (), w')"
    using split_emits [OF wire_platform_ok ab_world_facts(2) ab290_facts(1), of ab290 289]
      ab_world_facts(3)
    by (simp add: ab290_facts w'_def base_def)
  have jr: "journal w' = concat (map (shard_events wire_platform ''f'' 420 2 base 1 ab290) [1..<Suc 2])"
    by (simp add: w'_def journal_emit_shards ab290_facts del: upt_Suc)
  have wr: "writes_at (shard_path ''f'' 2 2) 0 (journal w')
      = [hdr_bytes wire_platform (first_hdr wire_platform base 1 ab290 2),
         hdr_bytes wire_platform (final_hdr wire_platform base 1 ab290 2)]"
    unfolding jr
    by (rule writes_at_shard_events_list [OF wire_platform_ok ab_world_facts(2)]) simp_all
  have nm: "length (original_name (first_hdr wire_platform base 1 ab290 2)) = name_capacity"
    "length (original_name (final_hdr wire_platform base 1 ab290 2)) = name_capacity"
    using length_split_hdr_name [OF ab_world_facts(3), of wire_platform 289 ab290 1 2]
    by (simp_all add: base_def)
  have dec: "bytes_hdr wire_platform (hdr_bytes wire_platform (first_hdr wire_platform base 1 ab290 2))
        = first_hdr wire_platform base 1 ab290 2"
    "bytes_hdr wire_platform (hdr_bytes wire_platform (final_hdr wire_platform base 1 ab290 2))
        = final_hdr wire_platform base 1 ab290 2"
    using platform_ok_dec [OF wire_platform_ok] nm by simp_all
  have u: "update_crc wire_platform = crc32_update" by (simp add: wire_platform_def)
  have "shard_crc (first_hdr wire_platform base 1 ab290 2) = crc32_update 0 (shard_payload 1 ab290 1)"
    "shard_crc (final_hdr wire_platform base 1 ab290 2) = crc32_update 0 (shard_payload 1 ab290 2)"
    by (simp_all add: first_hdr_def final_hdr_def u)
  then have crcs: "shard_crc (first_hdr wire_platform base 1 ab290 2) = 0xD3D99E8B"
    "shard_crc (final_hdr wire_platform base 1 ab290 2) = 0x4AD0CF31"
    unfolding ab290_facts crc32_A crc32_B by simp_all
  have aw: "after_split wire_platform ''f'' 289 ab290_world = w'"
    using status_after_split [OF sp] by simp
  show ?thesis
    unfolding aw wr [unfolded shard_path_f]
    by (simp only: list.map comp_apply dec crcs)
qed





text \<open>
  C6. For a valid shard set, when one byte of the payload of one shard's file is set to
  another value (the header and every other file as they were), \<open>join\<close> fails with the
  corruption error that names that shard, provided the checksum of the platform tells any
  change of a single byte, as CRC-32 does. It never returns success.
\<close>

theorem join_reports_damaged_shard:
  assumes "platform_ok P" and "detects_single_byte P" and "valid_shard_set P w ss"
    and "s \<in> set ss" and "i < length (sh_payload s)" and "b \<noteq> sh_payload s ! i"
  shows "join_status P (map sh_path ss)
           (with_contents w (c_str (sh_path s)) (shard_bytes P (damaged s i b)))
         = Some (Inl (Is_damaged (sh_path s)))"
  using join_damaged [OF assms] by (auto simp: join_status_def)

theorem join_reports_damaged_shard_witness:
  "platform_ok wire_platform \<and> detects_single_byte wire_platform \<and>
   valid_shard_set wire_platform pair_world pair_shards \<and>
   (''r@2.2'', pair_hdr 2 ''B'', ''B'') \<in> set pair_shards \<and>
   0 < length ''B'' \<and> CHR ''C'' \<noteq> ''B'' ! 0 \<and>
   join_status wire_platform [''r@1.2'', ''r@2.2'']
     (with_contents pair_world ''r@2.2'' (packed_hdr_bytes (pair_hdr 2 ''B'') @ ''C''))
     = Some (Inl (Is_damaged ''r@2.2''))"
proof -
  have m: "(''r@2.2'', pair_hdr 2 ''B'', ''B'') \<in> set pair_shards"
    by (simp add: pair_shards_def)
  have p: "sh_payload (''r@2.2'', pair_hdr 2 ''B'', ''B'') = ''B''"
    "sh_path (''r@2.2'', pair_hdr 2 ''B'', ''B'') = ''r@2.2''"
    "sh_hdr (''r@2.2'', pair_hdr 2 ''B'', ''B'') = pair_hdr 2 ''B''"
    by (simp_all add: sh_payload_def sh_path_def sh_hdr_def)
  have c: "c_str ''r@2.2'' = ''r@2.2''" by (simp add: c_str_def NUL_def)
  from join_reports_damaged_shard [OF wire_platform_ok crc32_detects_single_byte pair_valid m,
      of 0 "CHR ''C''"]
    wire_platform_ok crc32_detects_single_byte pair_valid m
  show ?thesis
    unfolding pair_paths by (simp add: p c shard_bytes_def damaged_sel wire_platform_def)
qed


text \<open>
  C1 at a failing input. The two-byte source \<open>AB\<close> named \<open>f\<close> is split with a limit of
  289, one byte over the 288-byte header: \<open>split\<close> succeeds and writes the single shard
  \<open>f@1.1\<close>, which carries \<open>A\<close> alone. \<open>join\<close> of that shard, the complete set, fails with the
  reconstruction error, having written \<open>A\<close> to \<open>f\<close>: the byte \<open>B\<close> is in no shard.
\<close>

theorem split_join_loses_bytes:
  "split_status wire_platform ''f'' 289 ab_world = Some (Inr ()) \<and>
   created (journal (after_split wire_platform ''f'' 289 ab_world)) = [''f@1.1''] \<and>
   join_status wire_platform [''f@1.1''] (after_split wire_platform ''f'' 289 ab_world)
     = Some (Inl Did_not_reconstruct) \<and>
   contents (after_join wire_platform [''f@1.1''] (after_split wire_platform ''f'' 289 ab_world)) ''f''
     = Some ''A''"
proof -
  have c1: "split_count 289 ''AB'' = 1" by (simp add: split_count_def)
  have cap: "shard_capacity wire_platform 289 = 1"
    by (simp add: shard_capacity_def wire_platform_def)
  define base where "base = split_hdr wire_platform ''f'' 289 ''AB''"
  define w' where "w' = emit_shards wire_platform ''f'' 420 1 base 1 ''AB'' [1..<Suc 1] ab_world"
  define h where "h = final_hdr wire_platform base 1 ''AB'' 1"
  define s where "s = (''f@1.1'', h, ''A'')"
  have sp: "split wire_platform ''f'' 289 ab_world = Some (Inr (), w')"
    using split_emits [OF wire_platform_ok ab_world_facts(2,1), of "''AB''" 289] ab_world_facts(3)
    by (simp add: c1 cap w'_def base_def)
  have cr: "created (journal w') = [''f@1.1'']"
    unfolding w'_def created_emit_shards
    by (simp add: shard_path_f [unfolded One_nat_def] ab_world_def world_of_def)
  have pl: "shard_payload 1 ''AB'' 1 = ''A''" by (simp add: shard_payload_def)
  have "contents w' (shard_path ''f'' 1 1)
          = Some (hdr_bytes wire_platform (final_hdr wire_platform base 1 ''AB'' 1) @ shard_payload 1 ''AB'' 1)"
    unfolding w'_def
    by (rule contents_emit_shards [OF ab_world_facts(2)]) simp_all
  then have ct: "contents w' ''f@1.1'' = Some (hdr_bytes wire_platform h @ ''A'')"
    unfolding shard_path_f pl h_def .
  have sel: "sh_path s = ''f@1.1''" "sh_hdr s = h" "sh_payload s = ''A''"
    by (simp_all add: s_def sh_path_def sh_hdr_def sh_payload_def)
  have hf: "magic h = expected_magic" "shard_count h = 1" "original_size h = 2"
    "shard_size h = 289" "shard_crc h = update_crc wire_platform 0 ''A''" "shard_idx h = 1"
    "original_name h = strcpy_zeroed name_capacity ''f''"
    unfolding h_def final_hdr_def pl
    by (simp_all add: base_def split_hdr_def c1 wire_platform_def
          ab_world_facts base_name_def strrchr_def c_str_def NUL_def)
  have nm: "length (original_name h) = name_capacity"
    by (simp add: hf strcpy_zeroed_def name_capacity_def)
  have dn: "c_str (original_name h) = ''f''"
    by (simp add: hf strcpy_zeroed_def name_capacity_def c_str_def NUL_def)
  have cs: "c_str ''f@1.1'' = ''f@1.1''" by (simp add: c_str_def NUL_def)
  have sf: "shard_file wire_platform w' ''f@1.1'' h ''A''"
    using ct by (simp add: shard_file_def contents_def cs nm hf(1-6) wire_platform_def
          length_packed_hdr_bytes)
  have disk: "shards_on_disk wire_platform w' [s]"
    using sf by (simp add: shards_on_disk_def sel consistent_def strcmp_eq_def hf(1-6) dn cs)
  have j: "join wire_platform [''f@1.1''] w' = Some (join_result wire_platform w' [s])"
    using join_runs [OF wire_platform_ok disk] by (simp add: sel)
  have int: "\<forall>t \<in> set [s]. intact wire_platform t" by (simp add: intact_def sel hf)
  have jp: "joined_payload [s] = ''A''"
    by (simp add: joined_payload_def in_index_order_def sel)
  have dp: "dest_path [s] = ''f''" by (simp add: dest_path_def sel dn)
  have r1: "fst (join_result wire_platform w' [s]) = Inl Did_not_reconstruct"
    unfolding join_result_intact(1) [OF wire_platform_ok int] jp by (simp add: sel hf(1-6))
  have r2: "contents (snd (join_result wire_platform w' [s])) ''f'' = Some ''A''"
    using join_result_intact(2) [OF wire_platform_ok int, of w'] by (simp add: jp dp)
  show ?thesis
    using status_after_split [OF sp] cr r1 r2
    by (simp add: j join_status_def after_join_def)
qed

end
